theory Spec2Isabelle
  imports Complex_Main "HOL-Library.Sublist"
begin

section \<open>Python values and builtins used by \<^verbatim>\<open>shodan_busqueda.py\<close>\<close>

text \<open>
  Conventions of the embedding.
  \<^item> A Python \<^verbatim>\<open>str\<close> is a \<open>string\<close> whose characters are the code points
    U+0000 to U+00FF (\<open>of_char c\<close> is the code point). The builtins below are
    written for exactly that range; text with code points above U+00FF is outside
    the model.
  \<^item> A decoded JSON value is a \<open>jval\<close>. JSON numbers with a fraction or an
    exponent (Python \<^verbatim>\<open>float\<close>) are outside the model. A JSON object is
    an association list in insertion order; its keys are meant to be distinct, and
    a lookup takes the first binding.
  \<^item> Python's \<^verbatim>\<open>None\<close> is \<open>JNull\<close>.
  \<^item> An exception is a value of \<open>pyexc\<close>; a function that can raise returns
    \<open>pyexc + 'a\<close> with \<open>Inl\<close> for the exception.
  \<^item> The limit on the number of digits of \<^verbatim>\<open>int(str)\<close> and
    \<^verbatim>\<open>str(int)\<close> that newer interpreters enforce is not modelled.
\<close>

datatype jval =
    JNull
  | JBool bool
  | JInt int
  | JStr string
  | JList "jval list"
  | JObj "(string \<times> jval) list"

datatype pyexc =
    SystemExit string
  | AttributeError
  | TypeError
  | ValueError
  | JSONDecodeError
  | RequestsError string

subsection \<open>Characters\<close>

definition code :: "char \<Rightarrow> nat" where
  "code c = of_char c"

text \<open>\<^verbatim>\<open>str.isspace\<close> on one character, as \<^verbatim>\<open>str.strip()\<close> uses it.\<close>

definition py_isspace :: "char \<Rightarrow> bool" where
  "py_isspace c =
     (let n = code c in (9 \<le> n \<and> n \<le> 13) \<or> (28 \<le> n \<and> n \<le> 32) \<or> n = 133 \<or> n = 160)"

text \<open>The characters \<^verbatim>\<open>int(str)\<close> skips around the digits.\<close>

definition int_isspace :: "char \<Rightarrow> bool" where
  "int_isspace c = (let n = code c in (9 \<le> n \<and> n \<le> 13) \<or> n = 32 \<or> n = 133 \<or> n = 160)"

definition py_isprintable :: "char \<Rightarrow> bool" where
  "py_isprintable c = (let n = code c in \<not> (n < 32 \<or> (127 \<le> n \<and> n \<le> 160) \<or> n = 173))"

definition is_digit :: "char \<Rightarrow> bool" where
  "is_digit c = (48 \<le> code c \<and> code c \<le> 57)"

definition is_alnum_ascii :: "char \<Rightarrow> bool" where
  "is_alnum_ascii c =
     (let n = code c in (48 \<le> n \<and> n \<le> 57) \<or> (65 \<le> n \<and> n \<le> 90) \<or> (97 \<le> n \<and> n \<le> 122))"

definition lower_char :: "char \<Rightarrow> char" where
  "lower_char c =
     (let n = code c in
      if (65 \<le> n \<and> n \<le> 90) \<or> (192 \<le> n \<and> n \<le> 214) \<or> (216 \<le> n \<and> n \<le> 222)
      then char_of (n + 32) else c)"

text \<open>\<^verbatim>\<open>s.lower()\<close>\<close>

definition py_lower :: "string \<Rightarrow> string" where
  "py_lower s = map lower_char s"

text \<open>\<^verbatim>\<open>s.strip()\<close>\<close>

definition py_strip :: "string \<Rightarrow> string" where
  "py_strip s = rev (dropWhile py_isspace (rev (dropWhile py_isspace s)))"

text \<open>\<^verbatim>\<open>x in s\<close> for two strings: \<open>x\<close> occurs in \<open>s\<close> as a contiguous run.\<close>

definition py_in :: "string \<Rightarrow> string \<Rightarrow> bool" where
  "py_in x s = sublist x s"

subsection \<open>Integers and text\<close>

definition digit_char :: "nat \<Rightarrow> char" where
  "digit_char d = ''0123456789'' ! d"

fun str_nat :: "nat \<Rightarrow> string" where
  "str_nat n = (if n < 10 then [digit_char n] else str_nat (n div 10) @ [digit_char (n mod 10)])"

declare str_nat.simps [simp del]

text \<open>\<^verbatim>\<open>str(n)\<close> for an \<^verbatim>\<open>int\<close>\<close>

definition str_int :: "int \<Rightarrow> string" where
  "str_int n = (if n < 0 then CHR ''-'' # str_nat (nat (- n)) else str_nat (nat n))"

text \<open>
  \<open>digit_char\<close> and the two \<open>hex\<close> functions are only applied to a digit
  value in range (below 10, below 16).
\<close>

text \<open>
  The digits of \<^verbatim>\<open>int(str)\<close>: one or more decimal digits, with single
  underscores allowed between digits. \<open>prev\<close> says that the previous character
  was a digit.
\<close>

fun parse_digits :: "nat \<Rightarrow> bool \<Rightarrow> string \<Rightarrow> nat option" where
  "parse_digits acc prev [] = (if prev then Some acc else None)"
| "parse_digits acc prev (c # cs) =
     (if is_digit c then parse_digits (acc * 10 + (code c - 48)) True cs
      else if c = CHR ''_'' \<and> prev then parse_digits acc False cs
      else None)"

definition int_of_str :: "string \<Rightarrow> int option" where
  "int_of_str s =
     (let t = rev (dropWhile int_isspace (rev (dropWhile int_isspace s)))
      in case t of
           [] \<Rightarrow> None
         | c # cs \<Rightarrow>
             if c = CHR ''-'' then map_option (\<lambda>n. - int n) (parse_digits 0 False cs)
             else if c = CHR ''+'' then map_option int (parse_digits 0 False cs)
             else map_option int (parse_digits 0 False (c # cs)))"

text \<open>\<^verbatim>\<open>int(v)\<close>\<close>

fun py_int :: "jval \<Rightarrow> pyexc + int" where
  "py_int (JInt n) = Inr n"
| "py_int (JBool b) = Inr (if b then 1 else 0)"
| "py_int (JStr s) = (case int_of_str s of None \<Rightarrow> Inl ValueError | Some n \<Rightarrow> Inr n)"
| "py_int JNull = Inl TypeError"
| "py_int (JList xs) = Inl TypeError"
| "py_int (JObj kvs) = Inl TypeError"

text \<open>Truth value of a Python object, as \<^verbatim>\<open>if v\<close>, \<^verbatim>\<open>not v\<close> and \<^verbatim>\<open>v or w\<close> take it.\<close>

fun py_truthy :: "jval \<Rightarrow> bool" where
  "py_truthy JNull = False"
| "py_truthy (JBool b) = b"
| "py_truthy (JInt n) = (n \<noteq> 0)"
| "py_truthy (JStr s) = (s \<noteq> [])"
| "py_truthy (JList xs) = (xs \<noteq> [])"
| "py_truthy (JObj kvs) = (kvs \<noteq> [])"

text \<open>\<^verbatim>\<open>a or b\<close>\<close>

definition py_or :: "jval \<Rightarrow> jval \<Rightarrow> jval" where
  "py_or a b = (if py_truthy a then a else b)"

subsection \<open>\<^verbatim>\<open>repr\<close> and \<^verbatim>\<open>str\<close>\<close>

definition hex_lower :: "nat \<Rightarrow> char" where
  "hex_lower d = ''0123456789abcdef'' ! d"

definition hex_upper :: "nat \<Rightarrow> char" where
  "hex_upper d = ''0123456789ABCDEF'' ! d"

definition repr_char :: "char \<Rightarrow> char \<Rightarrow> string" where
  "repr_char q c =
     (let n = code c in
      if c = q \<or> n = 92 then [CHR 0x5C, c]
      else if n = 9 then [CHR 0x5C, CHR ''t'']
      else if n = 10 then [CHR 0x5C, CHR ''n'']
      else if n = 13 then [CHR 0x5C, CHR ''r'']
      else if \<not> py_isprintable c then [CHR 0x5C, CHR ''x'', hex_lower (n div 16), hex_lower (n mod 16)]
      else [c])"

text \<open>
  \<^verbatim>\<open>repr(s)\<close> for a string: single quotes, unless the text has a single quote
  and no double quote.
\<close>

definition repr_str :: "string \<Rightarrow> string" where
  "repr_str s =
     (let q = (if CHR 0x27 \<in> set s \<and> CHR 0x22 \<notin> set s then CHR 0x22 else CHR 0x27)
      in q # concat (map (repr_char q) s) @ [q])"

fun join :: "string \<Rightarrow> string list \<Rightarrow> string" where
  "join sep [] = []"
| "join sep [x] = x"
| "join sep (x # y # ys) = x @ sep @ join sep (y # ys)"

primrec py_repr :: "jval \<Rightarrow> string" where
  "py_repr JNull = ''None''"
| "py_repr (JBool b) = (if b then ''True'' else ''False'')"
| "py_repr (JInt n) = str_int n"
| "py_repr (JStr s) = repr_str s"
| "py_repr (JList xs) = ''['' @ join '', '' (map py_repr xs) @ '']''"
| "py_repr (JObj kvs) =
     ''{'' @ join '', '' (map (\<lambda>kv. repr_str (fst kv) @ '': '' @ snd kv) (map (map_prod id py_repr) kvs)) @ ''}''"

text \<open>\<^verbatim>\<open>str(v)\<close>\<close>

definition py_str :: "jval \<Rightarrow> string" where
  "py_str v = (case v of JStr s \<Rightarrow> s | _ \<Rightarrow> py_repr v)"

subsection \<open>Dictionaries and iteration\<close>

text \<open>
  \<^verbatim>\<open>d.get(k, default)\<close>. Only a dict has the method: on any other value the
  attribute lookup raises.
\<close>

definition py_get :: "jval \<Rightarrow> string \<Rightarrow> jval \<Rightarrow> pyexc + jval" where
  "py_get d k dflt =
     (case d of
        JObj kvs \<Rightarrow> Inr (case map_of kvs k of None \<Rightarrow> dflt | Some v \<Rightarrow> v)
      | _ \<Rightarrow> Inl AttributeError)"

text \<open>\<^verbatim>\<open>d.get(k)\<close> on a value known to be a dict.\<close>

definition dict_get :: "(string \<times> jval) list \<Rightarrow> string \<Rightarrow> jval" where
  "dict_get kvs k = (case map_of kvs k of None \<Rightarrow> JNull | Some v \<Rightarrow> v)"

text \<open>
  The elements \<^verbatim>\<open>for x in v\<close> visits: the items of a list, the characters of
  a string, the keys of a dict; the other values are not iterable.
\<close>

fun py_iter :: "jval \<Rightarrow> pyexc + jval list" where
  "py_iter (JList xs) = Inr xs"
| "py_iter (JStr s) = Inr (map (\<lambda>c. JStr [c]) s)"
| "py_iter (JObj kvs) = Inr (map (\<lambda>kv. JStr (fst kv)) kvs)"
| "py_iter JNull = Inl TypeError"
| "py_iter (JBool b) = Inl TypeError"
| "py_iter (JInt n) = Inl TypeError"

text \<open>\<^verbatim>\<open>xs[:n]\<close>: a negative bound counts from the end.\<close>

definition py_slice_to :: "'a list \<Rightarrow> int \<Rightarrow> 'a list" where
  "py_slice_to xs n = (if 0 \<le> n then take (nat n) xs else take (length xs - nat (- n)) xs)"

section \<open>Configuration\<close>

text \<open>
  The module-level constants of the script, gathered in one record so that the
  functions reading them can be studied for every setting.
\<close>

record student =
  carnet :: string
  nombre :: string
  curso :: string
  seccion :: string

record config =
  STUDENT :: student
  SHODAN_API_KEY :: string
  CITY_FILTER :: "string option"
  ADDITIONAL_FILTERS :: string
  FACETS :: string
  MAX_RESULTS :: int
  SLEEP_SECONDS :: real
  PROHIBITED_KEYWORDS :: "string list"

section \<open>\<^verbatim>\<open>build_query\<close>\<close>

definition org_error :: string where
  "org_error =
     ''ERROR: El uso de filtros por organizaci'' @ [CHR 0xF3] @ ''n (org:) est'' @ [CHR 0xE1]
       @ '' prohibido por los requisitos.''"

definition build_query :: "config \<Rightarrow> pyexc + string" where
  "build_query cfg =
     (let base = ''country:GT'';
          base = (case CITY_FILTER cfg of
                    None \<Rightarrow> base
                  | Some city \<Rightarrow> if city \<noteq> [] then base @ '' city:'' @ [CHR 0x22] @ city @ [CHR 0x22] else base)
      in if ADDITIONAL_FILTERS cfg \<noteq> [] then
           (let low = py_lower (ADDITIONAL_FILTERS cfg)
            in if list_ex (\<lambda>x. py_in x low) (PROHIBITED_KEYWORDS cfg)
               then Inl (SystemExit org_error)
               else Inr (py_strip (base @ '' '' @ ADDITIONAL_FILTERS cfg)))
         else Inr (py_strip base))"

section \<open>The outside world\<close>

text \<open>
  What \<^verbatim>\<open>requests.get(url, timeout=60)\<close> does is a parameter \<open>net\<close> of the
  model: for a URL it either raises an exception of the HTTP library (given by
  its name: a connection error, a timeout of the 60 second limit, ...) or returns a
  response. The response carries its status code, its body \<^verbatim>\<open>resp.text\<close>
  and what \<^verbatim>\<open>resp.json()\<close> yields on it (\<open>None\<close>: decoding raises). One run never
  requests the same URL twice (the page number is part of it), so a function of
  the URL is enough.

  The effects of a run are collected in a \<open>world\<close>: the URLs requested, the
  blocks printed on the standard output, the lines printed on the error stream
  and the pauses taken, each in order. The standard output is recorded as one
  \<open>out\<close> event per logical block with the data it shows; the layout of the text
  (padding, rules, truncation to column widths, the clock reading in the banner)
  is not modelled.
\<close>

record response =
  status_code :: int
  resp_text :: string
  resp_json :: "jval option"

type_synonym net = "string \<Rightarrow> string + response"

datatype out =
    Banner student string
  | Totals int nat
  | FacetsHeader
  | FacetName string
  | FacetItem jval jval
  | NoResults
  | TableHeader
  | Row jval
  | Summary "jval list" student

record world =
  requests :: "string list"
  stdout :: "out list"
  stderr :: "string list"
  slept :: "real list"

definition print_out :: "out \<Rightarrow> world \<Rightarrow> world" where
  "print_out x w = w\<lparr>stdout := stdout w @ [x]\<rparr>"

definition print_err :: "string \<Rightarrow> world \<Rightarrow> world" where
  "print_err x w = w\<lparr>stderr := stderr w @ [x]\<rparr>"

section \<open>\<^verbatim>\<open>http_get_shodan\<close>\<close>

definition pct :: "nat \<Rightarrow> string" where
  "pct b = [CHR ''%'', hex_upper (b div 16), hex_upper (b mod 16)]"

text \<open>
  \<^verbatim>\<open>quote_plus\<close> on one character: the unreserved characters stay, a space
  becomes a plus sign, every other character is percent-encoded byte by byte in
  UTF-8 (two bytes from U+0080 on).
\<close>

definition quote_plus_char :: "char \<Rightarrow> string" where
  "quote_plus_char c =
     (let n = code c in
      if is_alnum_ascii c \<or> c \<in> set ''_.-~'' then [c]
      else if n = 32 then ''+''
      else if n < 128 then pct n
      else pct (192 + n div 64) @ pct (128 + n mod 64))"

definition quote_plus :: "string \<Rightarrow> string" where
  "quote_plus s = concat (map quote_plus_char s)"

text \<open>\<^verbatim>\<open>urlencode(params, quote_via=quote_plus)\<close> on the items of the dict, values already as text.\<close>

definition urlencode :: "(string \<times> string) list \<Rightarrow> string" where
  "urlencode params = join ''&'' (map (\<lambda>kv. quote_plus (fst kv) @ ''='' @ quote_plus (snd kv)) params)"

definition search_url :: string where
  "search_url = ''https://api.shodan.io/shodan/host/search''"

definition full_url :: "config \<Rightarrow> string \<Rightarrow> int \<Rightarrow> string \<Rightarrow> string" where
  "full_url cfg query page facets =
     (let params = [(''key'', SHODAN_API_KEY cfg), (''query'', query), (''page'', str_int page)];
          params = (if facets \<noteq> [] then params @ [(''facets'', facets)] else params)
      in search_url @ ''?'' @ urlencode params)"

definition http_error :: "int \<Rightarrow> string \<Rightarrow> string \<Rightarrow> string" where
  "http_error status url body =
     ''ERROR HTTP '' @ str_int status @ '' al consultar Shodan.'' @ [CHR 0x0A]
       @ ''URL: '' @ url @ [CHR 0x0A]
       @ ''Cuerpo: '' @ body"

definition http_get_shodan :: "config \<Rightarrow> net \<Rightarrow> string \<Rightarrow> int \<Rightarrow> string \<Rightarrow> world \<Rightarrow> (pyexc + jval) \<times> world" where
  "http_get_shodan cfg net query page facets w =
     (let url = full_url cfg query page facets;
          w' = w\<lparr>requests := requests w @ [url]\<rparr>
      in case net url of
           Inl name \<Rightarrow> (Inl (RequestsError name), w')
         | Inr resp \<Rightarrow>
             if status_code resp \<noteq> 200
             then (Inl (SystemExit (http_error (status_code resp) url (resp_text resp))), w')
             else (case resp_json resp of
                     None \<Rightarrow> (Inl JSONDecodeError, w')
                   | Some v \<Rightarrow> (Inr v, w')))"

section \<open>\<^verbatim>\<open>fetch_all\<close>\<close>

type_synonym key = "string \<times> int"

text \<open>
  The identity key of one match, lines 143 to 145: the address as text and the
  port as an integer, \<open>-1\<close> when the port is \<^verbatim>\<open>None\<close>.
\<close>

definition match_key :: "jval \<Rightarrow> pyexc + key" where
  "match_key m =
     (case m of
        JObj kvs \<Rightarrow>
          (let ip = py_or (dict_get kvs ''ip_str'') (dict_get kvs ''ip'');
               port = dict_get kvs ''port''
           in if port \<noteq> JNull
              then (case py_int port of Inl e \<Rightarrow> Inl e | Inr p \<Rightarrow> Inr (py_str ip, p))
              else Inr (py_str ip, - 1))
      | _ \<Rightarrow> Inl AttributeError)"

text \<open>
  The \<^verbatim>\<open>for\<close> loop of \<^verbatim>\<open>add_batch\<close> over the items still to visit. The lists
  \<^verbatim>\<open>matches\<close> and \<^verbatim>\<open>seen\<close> of the enclosing function are passed in and out.
\<close>

fun add_items :: "jval list \<Rightarrow> jval list \<Rightarrow> key set \<Rightarrow> nat \<Rightarrow> pyexc + (nat \<times> jval list \<times> key set)" where
  "add_items [] matches seen added = Inr (added, matches, seen)"
| "add_items (m # ms) matches seen added =
     (case match_key m of
        Inl e \<Rightarrow> Inl e
      | Inr k \<Rightarrow>
          if k \<notin> seen then add_items ms (matches @ [m]) (insert k seen) (added + 1)
          else add_items ms matches seen added)"

definition add_batch :: "jval \<Rightarrow> jval list \<Rightarrow> key set \<Rightarrow> pyexc + (nat \<times> jval list \<times> key set)" where
  "add_batch batch matches seen =
     (case py_iter (py_or batch (JList [])) of
        Inl e \<Rightarrow> Inl e
      | Inr items \<Rightarrow> add_items items matches seen 0)"

definition page_warning :: "int \<Rightarrow> string \<Rightarrow> string" where
  "page_warning page exc =
     ''ADVERTENCIA: No fue posible continuar en la p'' @ [CHR 0xE1] @ ''gina '' @ str_int page
       @ '': '' @ exc"

text \<open>
  \<^verbatim>\<open>time.sleep(sleep_s)\<close>: a negative length raises; otherwise the pause is
  recorded.
\<close>

definition time_sleep :: "real \<Rightarrow> world \<Rightarrow> (pyexc + unit) \<times> world" where
  "time_sleep s w = (if s < 0 then (Inl ValueError, w) else (Inr (), w\<lparr>slept := slept w @ [s]\<rparr>))"

text \<open>
  The state of the \<^verbatim>\<open>while\<close> loop: \<^verbatim>\<open>matches\<close>, \<^verbatim>\<open>seen\<close> and \<^verbatim>\<open>page\<close>.
  One pass through the loop body (lines 155 to 169) ends by raising, by
  \<^verbatim>\<open>break\<close> or by reaching the end of the body.
\<close>

type_synonym loop_state = "jval list \<times> key set \<times> int"

datatype ctl = Raise pyexc | Break loop_state | Continue loop_state

definition loop_body :: "config \<Rightarrow> net \<Rightarrow> string \<Rightarrow> real \<Rightarrow> loop_state \<Rightarrow> world \<Rightarrow> ctl \<times> world" where
  "loop_body cfg net query sleep_s st w =
     (case st of (matches, seen, page0) \<Rightarrow>
        (let page = page0 + 1 in
        (case http_get_shodan cfg net query page [] w of
          (Inl (SystemExit exc), w1) \<Rightarrow> (Break (matches, seen, page), print_err (page_warning page exc) w1)
        | (Inl e, w1) \<Rightarrow> (Raise e, w1)
        | (Inr data, w1) \<Rightarrow>
            (case py_get data ''matches'' (JList []) of
               Inl e \<Rightarrow> (Raise e, w1)
             | Inr batch \<Rightarrow>
                 if \<not> py_truthy batch then (Break (matches, seen, page), w1)
                 else
                   (case add_batch batch matches seen of
                      Inl e \<Rightarrow> (Raise e, w1)
                    | Inr (added, matches', seen') \<Rightarrow>
                        if added = 0 then (Break (matches', seen', page), w1)
                        else
                          (case time_sleep sleep_s w1 of
                             (Inl e, w2) \<Rightarrow> (Raise e, w2)
                           | (Inr u, w2) \<Rightarrow> (Continue (matches', seen', page), w2)))))))"

definition loop_cond :: "int \<Rightarrow> int \<Rightarrow> loop_state \<Rightarrow> bool" where
  "loop_cond max_results total_reported st =
     (case st of (matches, seen, page) \<Rightarrow>
        int (length matches) < max_results \<and> int (length matches) < total_reported)"

text \<open>The \<^verbatim>\<open>while\<close> loop, lines 154 to 169.\<close>

function fetch_pages :: "config \<Rightarrow> net \<Rightarrow> string \<Rightarrow> int \<Rightarrow> int \<Rightarrow> real \<Rightarrow> loop_state \<Rightarrow> world \<Rightarrow> (pyexc + loop_state) \<times> world" where
  "fetch_pages cfg net query max_results total_reported sleep_s st w =
     (if loop_cond max_results total_reported st then
        (case loop_body cfg net query sleep_s st w of
           (Raise e, w') \<Rightarrow> (Inl e, w')
         | (Break st', w') \<Rightarrow> (Inr st', w')
         | (Continue st', w') \<Rightarrow> fetch_pages cfg net query max_results total_reported sleep_s st' w')
      else (Inr st, w))"
  by pat_completeness auto
termination
proof (relation "measure (\<lambda>(cfg, net, query, max_results, total_reported, sleep_s, st, w). nat (max_results - int (length (fst st))))")
  show "wf (measure (\<lambda>(cfg, net, query, max_results, total_reported, sleep_s, st, w). nat (max_results - int (length (fst st)))))"
    by simp
next
  fix cfg :: config and net :: net and query max_results total_reported sleep_s
    and st :: loop_state and w :: world and x y st'
  assume c: "loop_cond max_results total_reported st"
    and x: "(x, y) = loop_body cfg net query sleep_s st w"
    and s: "x = Continue st'"
  have items: "length matches' + added = length matches + added' \<and> added \<le> added'"
    if "add_items items matches seen added = Inr (added', matches', seen')"
    for items matches seen added added' matches' seen'
    using that
  proof (induction items arbitrary: matches seen added)
    case Nil
    then show ?case by simp
  next
    case (Cons m ms)
    show ?case
    proof (cases "match_key m")
      case (Inl e)
      with Cons.prems show ?thesis by simp
    next
      case (Inr k)
      show ?thesis
      proof (cases "k \<in> seen")
        case True
        with Inr Cons.prems have "add_items ms matches seen added = Inr (added', matches', seen')"
          by simp
        from Cons.IH [OF this] show ?thesis .
      next
        case False
        with Inr Cons.prems
        have "add_items ms (matches @ [m]) (insert k seen) (added + 1) = Inr (added', matches', seen')"
          by simp
        from Cons.IH [OF this] show ?thesis by simp
      qed
    qed
  qed
  have batch: "length matches' = length matches + added"
    if "add_batch batch matches seen = Inr (added, matches', seen')"
    for batch matches seen added matches' seen'
    using that items [of _ matches seen 0 added matches' seen']
    by (auto simp: add_batch_def split: sum.splits)
  obtain ms sn pg where st: "st = (ms, sn, pg)" by (cases st) auto
  obtain ms' sn' pg' where st': "st' = (ms', sn', pg')" by (cases st') auto
  from x s st st' have "loop_body cfg net query sleep_s (ms, sn, pg) w = (Continue (ms', sn', pg'), y)"
    by simp
  then have "length ms < length ms'"
    by (auto simp: loop_body_def Let_def time_sleep_def
             split: prod.splits sum.splits pyexc.splits if_splits dest!: batch)
  moreover from c st have "int (length ms) < max_results" by (simp add: loop_cond_def)
  ultimately show "((cfg, net, query, max_results, total_reported, sleep_s, st', y),
           (cfg, net, query, max_results, total_reported, sleep_s, st, w))
         \<in> measure (\<lambda>(cfg, net, query, max_results, total_reported, sleep_s, st, w). nat (max_results - int (length (fst st))))"
    using st st' by simp
qed

declare fetch_pages.simps [simp del]

text \<open>
  \<^verbatim>\<open>fetch_all\<close>: the first page (lines 130 to 152), the loop, and the result
  (line 171). \<^verbatim>\<open>facets_obj\<close> is \<open>JNull\<close> for \<^verbatim>\<open>None\<close>.
\<close>

definition fetch_all :: "config \<Rightarrow> net \<Rightarrow> string \<Rightarrow> string \<Rightarrow> int \<Rightarrow> real \<Rightarrow> world \<Rightarrow> (pyexc + (jval list \<times> int \<times> jval)) \<times> world" where
  "fetch_all cfg net query facets max_results sleep_s w =
     (case http_get_shodan cfg net query 1 facets w of
        (Inl e, w1) \<Rightarrow> (Inl e, w1)
      | (Inr first, w1) \<Rightarrow>
          (case py_get first ''total'' (JInt 0) of
             Inl e \<Rightarrow> (Inl e, w1)
           | Inr tot \<Rightarrow>
               (case py_int tot of
                  Inl e \<Rightarrow> (Inl e, w1)
                | Inr total_reported \<Rightarrow>
                    (case py_get first ''facets'' JNull of
                       Inl e \<Rightarrow> (Inl e, w1)
                     | Inr fc \<Rightarrow>
                         let facets_obj = (if py_truthy fc then fc else JNull) in
                         (case py_get first ''matches'' (JList []) of
                            Inl e \<Rightarrow> (Inl e, w1)
                          | Inr batch \<Rightarrow>
                              (case add_batch batch [] {} of
                                 Inl e \<Rightarrow> (Inl e, w1)
                               | Inr (added, matches, seen) \<Rightarrow>
                                   (case fetch_pages cfg net query max_results total_reported sleep_s (matches, seen, 1) w1 of
                                      (Inl e, w2) \<Rightarrow> (Inl e, w2)
                                    | (Inr (matches', seen', page'), w2) \<Rightarrow>
                                        (Inr (py_slice_to matches' max_results, total_reported, facets_obj), w2))))))))"


section \<open>The report\<close>

text \<open>
  The printing functions are modelled up to layout: which blocks reach the
  standard output, in which order, and where a lookup on an ill-shaped record
  raises. \<^verbatim>\<open>normalize\<close> only formats text and never raises, so it has no
  counterpart here.
\<close>

definition print_banner :: "student \<Rightarrow> string \<Rightarrow> world \<Rightarrow> world" where
  "print_banner st final_query w = print_out (Banner st final_query) w"

text \<open>The inner loop of \<^verbatim>\<open>print_facets\<close> over the items of one facet.\<close>

fun facet_items :: "jval list \<Rightarrow> world \<Rightarrow> (pyexc + unit) \<times> world" where
  "facet_items [] w = (Inr (), w)"
| "facet_items (it # its) w =
     (case py_get it ''value'' JNull of
        Inl e \<Rightarrow> (Inl e, w)
      | Inr val \<Rightarrow>
          (case py_get it ''count'' JNull of
             Inl e \<Rightarrow> (Inl e, w)
           | Inr cnt \<Rightarrow> facet_items its (print_out (FacetItem val cnt) w)))"

text \<open>The outer loop of \<^verbatim>\<open>print_facets\<close> over \<^verbatim>\<open>facets_obj.items()\<close>.\<close>

fun facet_entries :: "(string \<times> jval) list \<Rightarrow> world \<Rightarrow> (pyexc + unit) \<times> world" where
  "facet_entries [] w = (Inr (), w)"
| "facet_entries ((facet_name, items) # rest) w =
     (if \<not> py_truthy items then facet_entries rest w
      else
        (let w1 = print_out (FacetName facet_name) w in
         (case py_iter items of
            Inl e \<Rightarrow> (Inl e, w1)
          | Inr its \<Rightarrow>
              (case facet_items its w1 of
                 (Inl e, w2) \<Rightarrow> (Inl e, w2)
               | (Inr u, w2) \<Rightarrow> facet_entries rest w2))))"

definition print_facets :: "jval \<Rightarrow> world \<Rightarrow> (pyexc + unit) \<times> world" where
  "print_facets facets_obj w =
     (if \<not> py_truthy facets_obj then (Inr (), w)
      else
        (let w1 = print_out FacetsHeader w in
         (case facets_obj of
            JObj kvs \<Rightarrow> facet_entries kvs w1
          | _ \<Rightarrow> (Inl AttributeError, w1))))"

text \<open>
  The lookups of one table row that can raise: the product falls back on
  \<^verbatim>\<open>(m.get("_shodan") or {}).get("module")\<close>, and the city is
  \<^verbatim>\<open>(m.get("location") or {}).get("city")\<close>.
\<close>

definition row_lookups :: "jval \<Rightarrow> pyexc + unit" where
  "row_lookups m =
     (case m of
        JObj kvs \<Rightarrow>
          (case (if py_truthy (dict_get kvs ''product'') then Inr (dict_get kvs ''product'')
                 else py_get (py_or (dict_get kvs ''_shodan'') (JObj [])) ''module'' JNull) of
             Inl e \<Rightarrow> Inl e
           | Inr product \<Rightarrow>
               (case py_get (py_or (dict_get kvs ''location'') (JObj [])) ''city'' JNull of
                  Inl e \<Rightarrow> Inl e
                | Inr city \<Rightarrow> Inr ()))
      | _ \<Rightarrow> Inl AttributeError)"

fun result_rows :: "jval list \<Rightarrow> world \<Rightarrow> (pyexc + unit) \<times> world" where
  "result_rows [] w = (Inr (), w)"
| "result_rows (m # ms) w =
     (case row_lookups m of
        Inl e \<Rightarrow> (Inl e, w)
      | Inr u \<Rightarrow> result_rows ms (print_out (Row m) w))"

definition print_results :: "jval list \<Rightarrow> world \<Rightarrow> (pyexc + unit) \<times> world" where
  "print_results results w =
     (if results = [] then (Inr (), print_out NoResults w)
      else result_rows results (print_out TableHeader w))"

text \<open>
  \<^verbatim>\<open>print_summary\<close> first walks the results, calling \<^verbatim>\<open>m.get\<close> on each
  (the conversion of the port is inside \<^verbatim>\<open>try\<close>), and prints afterwards.
\<close>

definition is_dict :: "jval \<Rightarrow> bool" where
  "is_dict v = (case v of JObj kvs \<Rightarrow> True | _ \<Rightarrow> False)"

definition print_summary :: "jval list \<Rightarrow> student \<Rightarrow> world \<Rightarrow> (pyexc + unit) \<times> world" where
  "print_summary results st w =
     (if list_all is_dict results then (Inr (), print_out (Summary results st) w)
      else (Inl AttributeError, w))"

section \<open>\<^verbatim>\<open>main\<close>\<close>

text \<open>Lines 309 to 314: what \<^verbatim>\<open>main\<close> does once \<^verbatim>\<open>fetch_all\<close> has returned.\<close>

definition main_report :: "config \<Rightarrow> jval list \<Rightarrow> int \<Rightarrow> jval \<Rightarrow> world \<Rightarrow> (pyexc + unit) \<times> world" where
  "main_report cfg results total_reported facets_obj w =
     (let w1 = print_out (Totals total_reported (length results)) w in
      (case print_facets facets_obj w1 of
         (Inl e, w2) \<Rightarrow> (Inl e, w2)
       | (Inr u, w2) \<Rightarrow>
           (case print_results results w2 of
              (Inl e, w3) \<Rightarrow> (Inl e, w3)
            | (Inr u, w3) \<Rightarrow> print_summary results (STUDENT cfg) w3)))"

definition main :: "config \<Rightarrow> net \<Rightarrow> world \<Rightarrow> (pyexc + unit) \<times> world" where
  "main cfg net w =
     (case build_query cfg of
        Inl e \<Rightarrow> (Inl e, w)
      | Inr final_query \<Rightarrow>
          (let w1 = print_banner (STUDENT cfg) final_query w in
           (case fetch_all cfg net final_query (FACETS cfg) (MAX_RESULTS cfg) (SLEEP_SECONDS cfg) w1 of
              (Inl e, w2) \<Rightarrow> (Inl e, w2)
            | (Inr (results, total_reported, facets_obj), w2) \<Rightarrow>
                main_report cfg results total_reported facets_obj w2)))"

text \<open>The constants as the script sets them.\<close>

definition script_config :: config where
  "script_config =
     \<lparr>STUDENT = \<lparr>carnet = ''1990-15-16083'',
                  nombre = ''Carlos Enrique Noj Pajarito'',
                  curso = ''Seguridad y Auditor'' @ [CHR 0xED] @ ''a de Sistemas'',
                  seccion = ''B''\<rparr>,
      SHODAN_API_KEY = ''XXXXXXX'',
      CITY_FILTER = None,
      ADDITIONAL_FILTERS = [],
      FACETS = [],
      MAX_RESULTS = 1000,
      SLEEP_SECONDS = 1,
      PROHIBITED_KEYWORDS = [''org:'']\<rparr>"

definition world0 :: world where
  "world0 = \<lparr>requests = [], stdout = [], stderr = [], slept = []\<rparr>"


section \<open>Vocabulary of the claims\<close>

text \<open>
  The definitions of this section do not come from the script: they name what
  the claims speak about, and the inputs at which the theorems are instantiated.
\<close>

text \<open>A text without the white space at its end.\<close>

definition without_trailing_space :: "string \<Rightarrow> string" where
  "without_trailing_space s = rev (dropWhile py_isspace (rev s))"

text \<open>The quoted city constraint, present when a non-empty locality is configured.\<close>

definition locality_part :: "config \<Rightarrow> string" where
  "locality_part cfg =
     (case CITY_FILTER cfg of
        None \<Rightarrow> []
      | Some city \<Rightarrow> if city \<noteq> [] then '' city:'' @ [CHR 0x22] @ city @ [CHR 0x22] else [])"

definition witness_query_config :: config where
  "witness_query_config = script_config\<lparr>CITY_FILTER := Some ''Antigua'', ADDITIONAL_FILTERS := ''port:80''\<rparr>"

text \<open>A network on which every request fails to connect.\<close>

definition no_network :: net where
  "no_network = (\<lambda>url. Inl ''ConnectionError'')"

subsection \<open>Identity keys and first occurrences\<close>

text \<open>
  The identity key of a match when \<^verbatim>\<open>add_batch\<close> can compute it, \<open>None\<close>
  when computing it raises.
\<close>

definition key_of :: "jval \<Rightarrow> key option" where
  "key_of m = (case match_key m of Inl e \<Rightarrow> None | Inr k \<Rightarrow> Some k)"

text \<open>
  A match is keyed when its identity key can be computed.
\<close>

definition keyed :: "jval \<Rightarrow> bool" where
  "keyed m = (key_of m \<noteq> None)"

text \<open>
  The specification of deduplication: every match is kept at its first
  occurrence, and every later match with the same key is dropped.
\<close>

fun keep_first :: "jval list \<Rightarrow> jval list" where
  "keep_first [] = []"
| "keep_first (m # ms) = m # keep_first (filter (\<lambda>x. key_of x \<noteq> key_of m) ms)"

text \<open>
  The set of the keys of a list of matches.
\<close>

definition keys :: "jval list \<Rightarrow> key set" where
  "keys ms = set (List.map_filter key_of ms)"

subsection \<open>What the pages serve\<close>

text \<open>
  The URL \<^verbatim>\<open>fetch_all\<close> requests for page \<open>p\<close>: the facets are sent with
  page 1 only.
\<close>

definition url_of :: "config \<Rightarrow> string \<Rightarrow> string \<Rightarrow> int \<Rightarrow> string" where
  "url_of cfg query facets p = full_url cfg query p (if p = 1 then facets else [])"

text \<open>
  The items of page \<open>p\<close>, when the page is served well: the request is answered
  with status 200, the body decodes to a dict, \<^verbatim>\<open>add_batch\<close> can iterate over
  its \<^verbatim>\<open>matches\<close> and every item is keyed. Otherwise \<open>None\<close>.
\<close>

definition page_items :: "config \<Rightarrow> net \<Rightarrow> string \<Rightarrow> string \<Rightarrow> int \<Rightarrow> jval list option" where
  "page_items cfg net query facets p =
     (case net (url_of cfg query facets p) of
        Inl name \<Rightarrow> None
      | Inr resp \<Rightarrow>
          if status_code resp \<noteq> 200 then None
          else
            (case resp_json resp of
               None \<Rightarrow> None
             | Some d \<Rightarrow>
                 (case py_get d ''matches'' (JList []) of
                    Inl e \<Rightarrow> None
                  | Inr b \<Rightarrow>
                      (case py_iter (py_or b (JList [])) of
                         Inl e \<Rightarrow> None
                       | Inr items \<Rightarrow> if list_all keyed items then Some items else None))))"

text \<open>
  The items of page \<open>p\<close>, none when the page is not served well.
\<close>

definition served_items :: "config \<Rightarrow> net \<Rightarrow> string \<Rightarrow> string \<Rightarrow> int \<Rightarrow> jval list" where
  "served_items cfg net query facets p =
     (case page_items cfg net query facets p of None \<Rightarrow> [] | Some items \<Rightarrow> items)"

text \<open>
  What the accumulator is specified to hold after page \<open>n\<close>: the matches
  of pages 1 to \<open>n\<close> in page order, each key at its first occurrence.
\<close>

definition accumulated :: "config \<Rightarrow> net \<Rightarrow> string \<Rightarrow> string \<Rightarrow> int \<Rightarrow> jval list" where
  "accumulated cfg net query facets n =
     keep_first (concat (map (served_items cfg net query facets) [1..n]))"

text \<open>
  The facets \<^verbatim>\<open>fetch_all\<close> captures from the dict of page 1.
\<close>

definition facets_of :: "(string \<times> jval) list \<Rightarrow> jval" where
  "facets_of kvs = (if py_truthy (dict_get kvs ''facets'') then dict_get kvs ''facets'' else JNull)"

text \<open>
  The total reported by page 1 and the facets captured from it, when page 1 is
  answered with status 200, decodes to a dict and its \<^verbatim>\<open>total\<close> converts to
  an integer.
\<close>

definition first_page :: "config \<Rightarrow> net \<Rightarrow> string \<Rightarrow> string \<Rightarrow> (int \<times> jval) option" where
  "first_page cfg net query facets =
     (case net (url_of cfg query facets 1) of
        Inl name \<Rightarrow> None
      | Inr resp \<Rightarrow>
          if status_code resp \<noteq> 200 then None
          else
            (case resp_json resp of
               Some (JObj kvs) \<Rightarrow>
                 (case py_int (case map_of kvs ''total'' of None \<Rightarrow> JInt 0 | Some v \<Rightarrow> v) of
                    Inl e \<Rightarrow> None
                  | Inr tot \<Rightarrow> Some (tot, facets_of kvs))
             | _ \<Rightarrow> None))"

text \<open>
  The loop fetches and processes pages 1 to \<open>n\<close>: each of them is served
  well, and before each of the pages 2 to \<open>n\<close> the number of accumulated matches
  is below both limits (so the page is requested) and the page adds at least one
  match with a new key (so the loop goes on after it).
\<close>

definition pages_fetched :: "config \<Rightarrow> net \<Rightarrow> string \<Rightarrow> string \<Rightarrow> int \<Rightarrow> int \<Rightarrow> int \<Rightarrow> bool" where
  "pages_fetched cfg net query facets max_results total_reported n =
     (1 \<le> n
      \<and> (\<forall>i\<in>{1..n}. page_items cfg net query facets i \<noteq> None)
      \<and> (\<forall>i\<in>{2..n}.
            int (length (accumulated cfg net query facets (i - 1))) < max_results
          \<and> int (length (accumulated cfg net query facets (i - 1))) < total_reported
          \<and> length (accumulated cfg net query facets (i - 1))
              < length (accumulated cfg net query facets i)))"

text \<open>
  The world after the requests for pages 1 to \<open>n\<close> and the pauses taken
  after the pages 2 to \<open>k\<close>.
\<close>

definition after_pages :: "config \<Rightarrow> string \<Rightarrow> string \<Rightarrow> real \<Rightarrow> int \<Rightarrow> int \<Rightarrow> world \<Rightarrow> world" where
  "after_pages cfg query facets sleep_s n k w =
     w\<lparr>requests := requests w @ map (url_of cfg query facets) [1..n],
       slept := slept w @ replicate (nat (k - 1)) sleep_s\<rparr>"

subsection \<open>Example servers\<close>

text \<open>
  Concrete inputs at which the theorems below are instantiated: records of
  hosts, pages carrying them, and networks that serve given pages and answer
  every other URL in one fixed way.
\<close>

definition host :: "string \<Rightarrow> int \<Rightarrow> jval" where
  "host ip port = JObj [(''ip_str'', JStr ip), (''port'', JInt port)]"

definition page_json :: "int \<Rightarrow> jval list \<Rightarrow> jval" where
  "page_json tot ms = JObj [(''total'', JInt tot), (''matches'', JList ms)]"

definition ok_response :: "jval \<Rightarrow> response" where
  "ok_response j = \<lparr>status_code = 200, resp_text = [], resp_json = Some j\<rparr>"

definition error_response :: response where
  "error_response = \<lparr>status_code = 500, resp_text = ''Internal Server Error'', resp_json = None\<rparr>"

definition page_url :: "int \<Rightarrow> string" where
  "page_url p = url_of script_config ''country:GT'' [] p"

definition serve :: "(string \<times> response) list \<Rightarrow> string + response \<Rightarrow> net" where
  "serve table otherwise = (\<lambda>url. case map_of table url of None \<Rightarrow> otherwise | Some r \<Rightarrow> Inr r)"

definition h1 :: jval where "h1 = host ''190.0.0.1'' 80"

definition h2 :: jval where "h2 = host ''190.0.0.2'' 443"

definition h3 :: jval where "h3 = host ''190.0.0.3'' 22"

definition h4 :: jval where "h4 = host ''190.0.0.4'' 8080"

definition h5 :: jval where "h5 = host ''190.0.0.5'' 21"

definition net_repeat :: net where
  "net_repeat = serve [(page_url 1, ok_response (page_json 5 [h1, h2, h1])),
                       (page_url 2, ok_response (page_json 5 [h2, h1]))] (Inl ''ConnectionError'')"

definition net_empty :: net where
  "net_empty = serve [(page_url 1, ok_response (page_json 0 []))] (Inl ''ConnectionError'')"

definition net_growing :: net where
  "net_growing = serve [(page_url 1, ok_response (page_json 5 [h1, h2])),
                        (page_url 2, ok_response (page_json 5 [h3, h1])),
                        (page_url 3, ok_response (page_json 5 [h4])),
                        (page_url 4, ok_response (page_json 5 [h5]))] (Inl ''ConnectionError'')"

definition two_pages :: "(string \<times> response) list" where
  "two_pages = [(page_url 1, ok_response (page_json 5 [h1, h2])),
                (page_url 2, ok_response (page_json 5 [h3]))]"

definition net_then_500 :: net where
  "net_then_500 = serve two_pages (Inr error_response)"

definition net_then_drop :: net where
  "net_then_drop = serve two_pages (Inl ''ConnectionError'')"

definition net_down :: net where
  "net_down = serve [] (Inr error_response)"

section \<open>Properties of \<^verbatim>\<open>build_query\<close>\<close>

lemma py_lower_append: "py_lower (a @ b) = py_lower a @ py_lower b"
  by (simp add: py_lower_def)

lemma rstrip_append:
  assumes "a \<noteq> []" and "\<not> py_isspace (last a)"
  shows "without_trailing_space (a @ b) = a @ without_trailing_space b"
proof -
  have ra: "dropWhile py_isspace (rev a) = rev a"
    using assms by (cases a rule: rev_cases) auto
  show ?thesis
  proof (cases "\<forall>x\<in>set (rev b). py_isspace x")
    case True
    then show ?thesis
      by (simp add: without_trailing_space_def dropWhile_append ra)
  next
    case False
    then show ?thesis
      by (auto simp add: without_trailing_space_def dropWhile_append)
  qed
qed

lemma not_space_c: "\<not> py_isspace CHR ''c''" "\<not> py_isspace CHR ''T''" "\<not> py_isspace (CHR 0x22)"
  by (simp_all add: py_isspace_def code_def)

lemma build_query_ok:
  assumes "\<not> list_ex (\<lambda>x. py_in x (py_lower (ADDITIONAL_FILTERS cfg))) (PROHIBITED_KEYWORDS cfg)"
  shows "build_query cfg = Inr (''country:GT'' @ locality_part cfg @
            without_trailing_space (if ADDITIONAL_FILTERS cfg = [] then [] else '' '' @ ADDITIONAL_FILTERS cfg))"
proof -
  let ?a = "''country:GT'' @ locality_part cfg"
  have a: "?a \<noteq> []" "\<not> py_isspace (last ?a)"
    by (auto simp: locality_part_def not_space_c split: option.splits)
  have strip: "py_strip (?a @ r) = ?a @ without_trailing_space r" for r
  proof -
    have "dropWhile py_isspace (?a @ r) = ?a @ r"
      by (simp add: not_space_c)
    then have "py_strip (?a @ r) = without_trailing_space (?a @ r)"
      by (simp only: py_strip_def without_trailing_space_def)
    then show ?thesis using rstrip_append [OF a] by simp
  qed
  have b: "(case CITY_FILTER cfg of None \<Rightarrow> ''country:GT''
            | Some city \<Rightarrow> if city \<noteq> [] then ''country:GT'' @ '' city:'' @ [CHR 0x22] @ city @ [CHR 0x22] else ''country:GT'') = ?a"
    by (simp add: locality_part_def split: option.splits)
  show ?thesis
    using assms strip [of "[]"] strip [of "'' '' @ ADDITIONAL_FILTERS cfg"]
    unfolding build_query_def Let_def b
    by (simp add: without_trailing_space_def)
qed


lemma last_rstrip:
  "without_trailing_space r \<noteq> [] \<Longrightarrow> \<not> py_isspace (last (without_trailing_space r))"
  using hd_dropWhile [of py_isspace "rev r"]
  by (simp add: without_trailing_space_def last_rev)

lemma rstrip_id: "r \<noteq> [] \<Longrightarrow> \<not> py_isspace (last r) \<Longrightarrow> without_trailing_space r = r"
  using rstrip_append [of r "[]"] by (simp add: without_trailing_space_def)

text \<open>
  Claim C2. When the additional filter text is set and contains, at any position,
  a piece \<open>t\<close> whose lower-case form is one of the prohibited terms (so \<open>t\<close> is
  the term in any letter case), \<^verbatim>\<open>build_query\<close> raises \<^verbatim>\<open>SystemExit\<close> with
  the message that filters by organisation are prohibited, and \<^verbatim>\<open>main\<close> ends with
  that exception in an unchanged world: no URL has been requested and nothing has
  been printed. A non-empty term makes the filter text non-empty.
\<close>

theorem prohibited_term_is_fatal:
  assumes "ADDITIONAL_FILTERS cfg = pre @ t @ post"
    and "py_lower t \<in> set (PROHIBITED_KEYWORDS cfg)"
    and "ADDITIONAL_FILTERS cfg \<noteq> []"
  shows "build_query cfg = Inl (SystemExit org_error) \<and> main cfg net w = (Inl (SystemExit org_error), w)"
proof -
  have "py_in (py_lower t) (py_lower (ADDITIONAL_FILTERS cfg))"
    using assms(1) by (simp add: py_in_def py_lower_append)
  with assms(2) have "list_ex (\<lambda>x. py_in x (py_lower (ADDITIONAL_FILTERS cfg))) (PROHIBITED_KEYWORDS cfg)"
    by (auto simp: list_ex_iff)
  with assms(3) have "build_query cfg = Inl (SystemExit org_error)"
    by (simp add: build_query_def Let_def)
  then show ?thesis by (simp add: main_def)
qed

theorem prohibited_term_is_fatal_witness:
  "build_query (script_config\<lparr>ADDITIONAL_FILTERS := ''port:80 ORG:acme''\<rparr>) = Inl (SystemExit org_error)
   \<and> main (script_config\<lparr>ADDITIONAL_FILTERS := ''port:80 ORG:acme''\<rparr>) no_network world0
       = (Inl (SystemExit org_error), world0)"
proof -
  have l: "py_lower ''ORG:'' \<in> set (PROHIBITED_KEYWORDS (script_config\<lparr>ADDITIONAL_FILTERS := ''port:80 ORG:acme''\<rparr>))"
    by code_simp
  show ?thesis
    using prohibited_term_is_fatal [of "script_config\<lparr>ADDITIONAL_FILTERS := ''port:80 ORG:acme''\<rparr>" "''port:80 ''" "''ORG:''" "''acme''" no_network world0, OF _ l]
    by simp
qed



text \<open>
  Claim C3, amended. When no prohibited term occurs in the lower-cased additional
  filter text, the built query is \<^verbatim>\<open>country:GT\<close>, then the quoted city
  constraint exactly when a non-empty locality is configured, then, when the
  additional text is not empty, one space and the additional text without the
  white space at its end. The query neither starts nor ends with white space.
  The additional text appears verbatim whenever it does not end in white space,
  and with no locality and an empty additional text the query is exactly
  \<^verbatim>\<open>country:GT\<close>.
\<close>

theorem build_query_shape:
  assumes "\<not> list_ex (\<lambda>x. py_in x (py_lower (ADDITIONAL_FILTERS cfg))) (PROHIBITED_KEYWORDS cfg)"
  shows "\<exists>q. build_query cfg = Inr q
           \<and> q = ''country:GT'' @ locality_part cfg
                  @ without_trailing_space
                      (if ADDITIONAL_FILTERS cfg = [] then [] else '' '' @ ADDITIONAL_FILTERS cfg)
           \<and> \<not> py_isspace (hd q) \<and> \<not> py_isspace (last q)
           \<and> (ADDITIONAL_FILTERS cfg \<noteq> [] \<and> \<not> py_isspace (last (ADDITIONAL_FILTERS cfg))
                \<longrightarrow> q = ''country:GT'' @ locality_part cfg @ '' '' @ ADDITIONAL_FILTERS cfg)
           \<and> (CITY_FILTER cfg = None \<and> ADDITIONAL_FILTERS cfg = [] \<longrightarrow> q = ''country:GT'')"
proof -
  let ?f = "ADDITIONAL_FILTERS cfg"
  let ?a = "''country:GT'' @ locality_part cfg"
  let ?r = "without_trailing_space (if ?f = [] then [] else '' '' @ ?f)"
  let ?q = "?a @ ?r"
  have q: "build_query cfg = Inr ?q"
    using build_query_ok [OF assms] by simp
  have hd: "\<not> py_isspace (hd ?q)"
    by (simp add: not_space_c)
  have a: "?a \<noteq> []" "\<not> py_isspace (last ?a)"
    by (auto simp: locality_part_def not_space_c split: option.splits)
  have last: "\<not> py_isspace (last ?q)"
  proof (cases "?r = []")
    case True
    then show ?thesis using a by simp
  next
    case False
    then show ?thesis using last_rstrip [of "if ?f = [] then [] else '' '' @ ?f"] by simp
  qed
  have verb: "?q = ?a @ '' '' @ ?f" if "?f \<noteq> []" "\<not> py_isspace (last ?f)"
    using that rstrip_id [of "'' '' @ ?f"] by simp
  have empty: "?q = ''country:GT''" if "CITY_FILTER cfg = None" "?f = []"
    using that by (simp add: locality_part_def without_trailing_space_def)
  show ?thesis
    using q hd last verb empty by (intro exI [of _ ?q]) simp
qed

theorem build_query_shape_witness:
  "\<not> list_ex (\<lambda>x. py_in x (py_lower (ADDITIONAL_FILTERS witness_query_config)))
        (PROHIBITED_KEYWORDS witness_query_config)
   \<and> build_query witness_query_config = Inr (''country:GT city:'' @ [CHR 0x22] @ ''Antigua'' @ [CHR 0x22] @ '' port:80'')
   \<and> build_query script_config = Inr ''country:GT''"
proof -
  have h: "\<not> list_ex (\<lambda>x. py_in x (py_lower (ADDITIONAL_FILTERS witness_query_config)))
        (PROHIBITED_KEYWORDS witness_query_config)"
    by code_simp
  have h0: "\<not> list_ex (\<lambda>x. py_in x (py_lower (ADDITIONAL_FILTERS script_config)))
        (PROHIBITED_KEYWORDS script_config)"
    by code_simp
  have ns: "\<not> py_isspace CHR ''0''" by (simp add: py_isspace_def code_def)
  from build_query_shape [OF h] ns
  have "build_query witness_query_config = Inr (''country:GT city:'' @ [CHR 0x22] @ ''Antigua'' @ [CHR 0x22] @ '' port:80'')"
    by (auto simp: witness_query_config_def script_config_def locality_part_def)
  moreover from build_query_shape [OF h0]
  have "build_query script_config = Inr ''country:GT''"
    by (auto simp: script_config_def)
  ultimately show ?thesis using h by simp
qed

text \<open>
  The claim as first stated, with the additional text always verbatim, fails for a
  text that ends in white space: \<^verbatim>\<open>strip()\<close> removes the end of the text.
\<close>

theorem build_query_verbatim_counterexample:
  "build_query (script_config\<lparr>ADDITIONAL_FILTERS := ''port:80 ''\<rparr>) = Inr ''country:GT port:80''
   \<and> build_query (script_config\<lparr>ADDITIONAL_FILTERS := ''port:80 ''\<rparr>)
       \<noteq> Inr (''country:GT'' @ '' '' @ ''port:80 '')"
  by code_simp

section \<open>Properties of \<^verbatim>\<open>http_get_shodan\<close>\<close>

lemma http_error_contains:
  "py_in (str_int st) (http_error st url body)"
  "py_in url (http_error st url body)"
  "py_in body (http_error st url body)"
proof -
  show "py_in (str_int st) (http_error st url body)"
    unfolding py_in_def http_error_def
    using sublist_appendI [of "str_int st" "''ERROR HTTP ''"] by simp
  show "py_in url (http_error st url body)"
    unfolding py_in_def http_error_def
    using sublist_appendI [of url "''ERROR HTTP '' @ str_int st @ '' al consultar Shodan.'' @ [CHR 0x0A] @ ''URL: ''"]
    by simp
  show "py_in body (http_error st url body)"
    unfolding py_in_def http_error_def
    using sublist_append_leftI [of body "''ERROR HTTP '' @ str_int st @ '' al consultar Shodan.'' @ [CHR 0x0A] @ ''URL: '' @ url @ [CHR 0x0A] @ ''Cuerpo: ''"]
    by simp
qed

text \<open>
  Claim C8. Every call of \<^verbatim>\<open>http_get_shodan\<close> issues one request: it adds
  exactly the constructed URL to the requests made. When the answer has a status
  other than 200 the call raises \<^verbatim>\<open>SystemExit\<close> with a message that contains the
  status code in decimal, the constructed URL and the body of the response. When
  the status is 200 the call returns whatever value the body decodes to, of any
  shape.
\<close>

theorem page_fetcher_contract:
  "snd (http_get_shodan cfg net q p f w) = w\<lparr>requests := requests w @ [full_url cfg q p f]\<rparr>
   \<and> (net (full_url cfg q p f) = Inr resp \<and> status_code resp \<noteq> 200
      \<longrightarrow> (\<exists>msg. fst (http_get_shodan cfg net q p f w) = Inl (SystemExit msg)
                \<and> py_in (str_int (status_code resp)) msg
                \<and> py_in (full_url cfg q p f) msg
                \<and> py_in (resp_text resp) msg))
   \<and> (net (full_url cfg q p f) = Inr resp \<and> status_code resp = 200 \<and> resp_json resp = Some v
      \<longrightarrow> fst (http_get_shodan cfg net q p f w) = Inr v)"
proof (intro conjI impI)
  show "snd (http_get_shodan cfg net q p f w) = w\<lparr>requests := requests w @ [full_url cfg q p f]\<rparr>"
    by (simp add: http_get_shodan_def Let_def split: sum.splits option.splits)
next
  assume "net (full_url cfg q p f) = Inr resp \<and> status_code resp \<noteq> 200"
  then have "fst (http_get_shodan cfg net q p f w)
             = Inl (SystemExit (http_error (status_code resp) (full_url cfg q p f) (resp_text resp)))"
    by (simp add: http_get_shodan_def Let_def)
  then show "\<exists>msg. fst (http_get_shodan cfg net q p f w) = Inl (SystemExit msg)
                \<and> py_in (str_int (status_code resp)) msg
                \<and> py_in (full_url cfg q p f) msg
                \<and> py_in (resp_text resp) msg"
    using http_error_contains by blast
next
  assume "net (full_url cfg q p f) = Inr resp \<and> status_code resp = 200 \<and> resp_json resp = Some v"
  then show "fst (http_get_shodan cfg net q p f w) = Inr v"
    by (simp add: http_get_shodan_def Let_def)
qed

theorem page_fetcher_contract_witness:
  "(\<exists>msg. fst (http_get_shodan script_config net_down ''country:GT'' 1 [] world0) = Inl (SystemExit msg)
          \<and> py_in ''500'' msg \<and> py_in (page_url 1) msg \<and> py_in ''Internal Server Error'' msg)
   \<and> snd (http_get_shodan script_config net_down ''country:GT'' 1 [] world0)
       = world0\<lparr>requests := [page_url 1]\<rparr>
   \<and> fst (http_get_shodan script_config net_repeat ''country:GT'' 1 [] world0)
       = Inr (page_json 5 [h1, h2, h1])"
proof -
  have u: "full_url script_config ''country:GT'' 1 [] = page_url 1"
    by (simp add: page_url_def url_of_def)
  have n1: "net_down (full_url script_config ''country:GT'' 1 []) = Inr error_response
            \<and> status_code error_response \<noteq> 200"
    by code_simp
  have n2: "net_repeat (full_url script_config ''country:GT'' 1 [])
              = Inr (ok_response (page_json 5 [h1, h2, h1]))
            \<and> status_code (ok_response (page_json 5 [h1, h2, h1])) = 200
            \<and> resp_json (ok_response (page_json 5 [h1, h2, h1])) = Some (page_json 5 [h1, h2, h1])"
    by code_simp
  have s: "str_int 500 = ''500''" by code_simp
  from page_fetcher_contract [of script_config net_down "''country:GT''" 1 "[]" world0 error_response]
    n1 s u
  have e: "(\<exists>msg. fst (http_get_shodan script_config net_down ''country:GT'' 1 [] world0) = Inl (SystemExit msg)
          \<and> py_in ''500'' msg \<and> py_in (page_url 1) msg \<and> py_in ''Internal Server Error'' msg)
     \<and> snd (http_get_shodan script_config net_down ''country:GT'' 1 [] world0)
       = world0\<lparr>requests := [page_url 1]\<rparr>"
    by (simp add: error_response_def world0_def)
  from page_fetcher_contract [of script_config net_repeat "''country:GT''" 1 "[]" world0
      "ok_response (page_json 5 [h1, h2, h1])" "page_json 5 [h1, h2, h1]"] n2
  have "fst (http_get_shodan script_config net_repeat ''country:GT'' 1 [] world0)
       = Inr (page_json 5 [h1, h2, h1])"
    by blast
  with e show ?thesis by blast
qed

section \<open>First occurrences per key\<close>

lemma keys_alt: "keys ms = {k. Some k \<in> key_of ` set ms}"
proof (induction ms)
  case Nil
  show ?case by (simp add: keys_def map_filter_simps)
next
  case (Cons m ms)
  have "keys (m # ms) = (case key_of m of None \<Rightarrow> keys ms | Some k \<Rightarrow> insert k (keys ms))"
    by (simp add: keys_def map_filter_simps split: option.splits)
  with Cons show ?case by (auto split: option.splits)
qed

lemma set_keep_first: "set (keep_first xs) \<subseteq> set xs"
  by (induction xs rule: keep_first.induct) auto

lemma key_image_keep_first: "key_of ` set (keep_first xs) = key_of ` set xs"
proof (induction xs rule: keep_first.induct)
  case 1
  show ?case by simp
next
  case (2 m ms)
  have "key_of ` set (m # ms) = insert (key_of m) (key_of ` set (filter (\<lambda>x. key_of x \<noteq> key_of m) ms))"
    by auto
  with 2 show ?case by simp
qed

lemma keys_keep_first: "keys (keep_first xs) = keys xs"
  by (simp add: keys_alt key_image_keep_first)

lemma distinct_keep_first: "distinct (map key_of (keep_first xs))"
proof (induction xs rule: keep_first.induct)
  case 1
  show ?case by simp
next
  case (2 m ms)
  have "key_of m \<notin> key_of ` set (keep_first (filter (\<lambda>x. key_of x \<noteq> key_of m) ms))"
    by (auto simp: key_image_keep_first)
  with 2 show ?case by simp
qed

lemma keep_first_distinct: "distinct (map key_of xs) \<Longrightarrow> keep_first xs = xs"
proof (induction xs)
  case Nil
  show ?case by simp
next
  case (Cons m ms)
  from Cons.prems have "key_of m \<notin> key_of ` set ms" by simp
  then have "\<forall>x\<in>set ms. key_of x \<noteq> key_of m" by (metis imageI)
  then have "filter (\<lambda>x. key_of x \<noteq> key_of m) ms = ms"
    by (simp add: filter_id_conv)
  with Cons show ?case by simp
qed

lemma keep_first_append:
  "keep_first (xs @ ys) = keep_first xs @ keep_first (filter (\<lambda>y. key_of y \<notin> key_of ` set xs) ys)"
proof (induction xs arbitrary: ys rule: keep_first.induct)
  case 1
  show ?case by simp
next
  case (2 m ms)
  let ?P = "\<lambda>x. key_of x \<noteq> key_of m"
  have "filter (\<lambda>y. key_of y \<notin> key_of ` set (filter ?P ms)) (filter ?P ys)
        = filter (\<lambda>y. key_of y \<notin> key_of ` set (m # ms)) ys"
    by (auto intro!: filter_cong)
  with 2 [of "filter ?P ys"] show ?case by simp
qed

lemma keep_first_idem_append: "keep_first (keep_first xs @ ys) = keep_first (xs @ ys)"
  by (simp add: keep_first_append [of "keep_first xs"] keep_first_append [of xs]
       key_image_keep_first keep_first_distinct distinct_keep_first)

lemma keyed_match_key: "keyed m \<Longrightarrow> \<exists>k. match_key m = Inr k \<and> key_of m = Some k"
  by (auto simp: keyed_def key_of_def split: sum.splits)

lemma keys_append: "keys (xs @ ys) = keys xs \<union> keys ys"
  by (auto simp: keys_alt)

lemma keys_Cons: "key_of m = Some k \<Longrightarrow> keys (m # xs) = insert k (keys xs)"
  by (auto simp: keys_alt)

lemma keys_Nil: "keys [] = {}"
  by (simp add: keys_alt)

lemma length_keep_first_append: "length (keep_first xs) \<le> length (keep_first (xs @ ys))"
  by (simp add: keep_first_append [of xs ys])

lemma keep_first_seen:
  assumes "key_of m \<in> key_of ` set ms"
  shows "keep_first (ms @ m # rest) = keep_first (ms @ rest)"
  using assms by (simp add: keep_first_append [of ms])

lemma length_keep_first: "length (keep_first xs) = length (remdups (map key_of xs))"
proof -
  have "length (keep_first xs) = length (map key_of (keep_first xs))" by simp
  also have "\<dots> = card (set (map key_of (keep_first xs)))"
    using distinct_keep_first [of xs] by (simp only: distinct_card)
  also have "\<dots> = card (key_of ` set xs)"
    by (simp add: key_image_keep_first)
  also have "\<dots> = length (remdups (map key_of xs))"
    by (simp add: length_remdups_card_conv)
  finally show ?thesis .
qed

lemma keep_first_repeated:
  assumes "key_of ` set ys \<subseteq> key_of ` set xs"
  shows "keep_first (xs @ ys) = keep_first xs"
proof -
  from assms have "filter (\<lambda>y. key_of y \<notin> key_of ` set xs) ys = []"
    by (auto simp: filter_empty_conv)
  then show ?thesis by (simp add: keep_first_append [of xs ys])
qed

lemma length_keep_first_ge:
  assumes "distinct (map key_of ms)"
  shows "length ms \<le> length (keep_first (ms @ items))"
  using length_keep_first_append [of ms items] assms by (simp add: keep_first_distinct)

section \<open>\<^verbatim>\<open>add_batch\<close> and one pass through the loop\<close>

lemma add_items_keyed:
  assumes "list_all keyed items" and "seen = keys ms" and "distinct (map key_of ms)"
  shows "add_items items ms seen a
         = Inr (a + (length (keep_first (ms @ items)) - length ms), keep_first (ms @ items), keys (ms @ items))"
  using assms
proof (induction items arbitrary: ms seen a)
  case Nil
  then show ?case by (simp add: keep_first_distinct)
next
  case (Cons m rest)
  from Cons.prems(1) have "keyed m" by simp
  then obtain k where k: "match_key m = Inr k" "key_of m = Some k"
    using keyed_match_key by blast
  have rest: "list_all keyed rest" using Cons.prems(1) by simp
  show ?case
  proof (cases "k \<in> seen")
    case True
    then have in_ms: "key_of m \<in> key_of ` set ms"
      using Cons.prems(2) k by (simp add: keys_alt)
    have "keys (ms @ m # rest) = keys (ms @ rest)"
      using True Cons.prems(2) k by (auto simp: keys_append keys_Cons)
    with Cons.IH [OF rest Cons.prems(2) Cons.prems(3), of a] True k in_ms show ?thesis
      by (simp add: keep_first_seen)
  next
    case False
    then have notin: "key_of m \<notin> key_of ` set ms"
      using Cons.prems(2) k by (simp add: keys_alt)
    have s: "insert k seen = keys (ms @ [m])"
      using Cons.prems(2) k by (auto simp: keys_append keys_Cons keys_Nil)
    have d: "distinct (map key_of (ms @ [m]))"
      using Cons.prems(3) notin by simp
    have "length (keep_first (ms @ [m])) \<le> length (keep_first ((ms @ [m]) @ rest))"
      by (rule length_keep_first_append)
    then have le: "Suc (length ms) \<le> length (keep_first (ms @ m # rest))"
      using d by (simp add: keep_first_distinct)
    from Cons.IH [OF rest s d, of "a + 1"] False k le show ?thesis
      by simp
  qed
qed

lemma add_items_Inr_keyed:
  "add_items items ms seen a = Inr r \<Longrightarrow> list_all keyed items"
proof (induction items arbitrary: ms seen a)
  case Nil
  show ?case by simp
next
  case (Cons m rest)
  show ?case
  proof (cases "match_key m")
    case (Inl e)
    with Cons.prems show ?thesis by simp
  next
    case (Inr k)
    then have m: "keyed m" by (simp add: keyed_def key_of_def)
    from Inr Cons.prems have "\<exists>ms' seen' a'. add_items rest ms' seen' a' = Inr r"
      by (cases "k \<in> seen") auto
    with Cons.IH m show ?thesis by auto
  qed
qed

lemma add_items_not_keyed:
  "\<not> list_all keyed items \<Longrightarrow> \<exists>e. add_items items ms seen a = Inl e"
  using add_items_Inr_keyed [of items ms seen a]
  by (cases "add_items items ms seen a") auto

lemma py_or_truthy: "py_truthy b \<Longrightarrow> py_or b x = b"
  by (simp add: py_or_def)

lemma py_or_falsy: "\<not> py_truthy b \<Longrightarrow> py_or b x = x"
  by (simp add: py_or_def)

lemma py_iter_truthy:
  assumes "py_iter (py_or b (JList [])) = Inr items"
  shows "py_truthy b \<longleftrightarrow> items \<noteq> []"
proof (cases "py_truthy b")
  case True
  with assms have "py_iter b = Inr items" by (simp add: py_or_def)
  with True show ?thesis by (cases b) auto
next
  case False
  with assms show ?thesis by (simp add: py_or_def)
qed

lemma http_ok:
  assumes "net (full_url cfg q p f) = Inr resp" and "status_code resp = 200" and "resp_json resp = Some d"
  shows "http_get_shodan cfg net q p f w = (Inr d, w\<lparr>requests := requests w @ [full_url cfg q p f]\<rparr>)"
  using assms by (simp add: http_get_shodan_def Let_def)

lemma http_Inr_D:
  assumes "http_get_shodan cfg net q p f w = (Inr d, w1)"
  shows "\<exists>resp. net (full_url cfg q p f) = Inr resp \<and> status_code resp = 200 \<and> resp_json resp = Some d
           \<and> w1 = w\<lparr>requests := requests w @ [full_url cfg q p f]\<rparr>"
  using assms
  by (auto simp: http_get_shodan_def Let_def split: sum.splits if_splits option.splits)

lemma page_items_SomeD:
  assumes "page_items cfg net q f p = Some items"
  shows "\<exists>resp d b. net (url_of cfg q f p) = Inr resp \<and> status_code resp = 200 \<and> resp_json resp = Some d
           \<and> py_get d ''matches'' (JList []) = Inr b \<and> py_iter (py_or b (JList [])) = Inr items
           \<and> list_all keyed items"
  using assms
  by (auto simp: page_items_def split: sum.splits option.splits if_splits)

lemma url_of_next: "1 \<le> page \<Longrightarrow> url_of cfg q f (page + 1) = full_url cfg q (page + 1) []"
  by (simp add: url_of_def)

lemma url_of_one: "url_of cfg q f 1 = full_url cfg q 1 f"
  by (simp add: url_of_def)

lemma add_batch_served:
  assumes "py_iter (py_or b (JList [])) = Inr items" and "list_all keyed items"
    and "seen = keys ms" and "distinct (map key_of ms)"
  shows "add_batch b ms seen
         = Inr (length (keep_first (ms @ items)) - length ms, keep_first (ms @ items), keys (keep_first (ms @ items)))"
  using assms add_items_keyed [of items seen ms 0]
  by (simp add: add_batch_def keys_keep_first)

lemma first_batch:
  assumes "add_batch batch [] {} = Inr (added, ms1, seen1)"
  shows "\<exists>items. py_iter (py_or batch (JList [])) = Inr items \<and> list_all keyed items
           \<and> ms1 = keep_first items \<and> seen1 = keys (keep_first items)"
proof -
  from assms obtain items where it: "py_iter (py_or batch (JList [])) = Inr items"
    and ai: "add_items items [] {} 0 = Inr (added, ms1, seen1)"
    by (auto simp: add_batch_def split: sum.splits)
  from ai have k: "list_all keyed items" by (rule add_items_Inr_keyed)
  from add_items_keyed [OF k, of "{}" "[]" 0] ai
  have "ms1 = keep_first items" "seen1 = keys items" by (simp_all add: keys_Nil)
  with it k show ?thesis by (simp add: keys_keep_first)
qed

lemma loop_body_served:
  assumes p: "page_items cfg net q f (page + 1) = Some items" and page: "1 \<le> page"
    and seen: "seen = keys ms" and d: "distinct (map key_of ms)"
  shows "loop_body cfg net q sleep_s (ms, seen, page) w =
           (let ms' = keep_first (ms @ items);
                w1 = w\<lparr>requests := requests w @ [url_of cfg q f (page + 1)]\<rparr>
            in if length ms' = length ms then (Break (ms', keys ms', page + 1), w1)
               else if sleep_s < 0 then (Raise ValueError, w1)
               else (Continue (ms', keys ms', page + 1), w1\<lparr>slept := slept w1 @ [sleep_s]\<rparr>))"
proof -
  from page_items_SomeD [OF p] obtain resp d b where
    net: "net (url_of cfg q f (page + 1)) = Inr resp" and st: "status_code resp = 200"
    and js: "resp_json resp = Some d" and get: "py_get d ''matches'' (JList []) = Inr b"
    and it: "py_iter (py_or b (JList [])) = Inr items" and k: "list_all keyed items"
    by blast
  have u: "url_of cfg q f (page + 1) = full_url cfg q (page + 1) []"
    using page by (rule url_of_next)
  have h: "http_get_shodan cfg net q (page + 1) [] w
           = (Inr d, w\<lparr>requests := requests w @ [url_of cfg q f (page + 1)]\<rparr>)"
    using http_ok [of net cfg q "page + 1" "[]" resp d w] net st js u by simp
  have ge: "length ms \<le> length (keep_first (ms @ items))"
    using d by (rule length_keep_first_ge)
  show ?thesis
  proof (cases "py_truthy b")
    case False
    with it have "items = []" using py_iter_truthy by blast
    with False h get seen d show ?thesis
      by (simp add: loop_body_def Let_def keep_first_distinct)
  next
    case True
    have ab: "add_batch b ms seen
         = Inr (length (keep_first (ms @ items)) - length ms, keep_first (ms @ items), keys (keep_first (ms @ items)))"
      using it k seen d by (rule add_batch_served)
    from True h get ab ge show ?thesis
      by (auto simp: loop_body_def Let_def time_sleep_def)
  qed
qed

lemma loop_body_requests:
  "requests (snd (loop_body cfg net q sleep_s (ms, seen, page) w))
     = requests w @ [full_url cfg q (page + 1) []]"
  by (auto simp: loop_body_def http_get_shodan_def Let_def time_sleep_def print_err_def
           split: sum.splits pyexc.splits option.splits prod.splits)

lemma loop_body_unserved:
  assumes p: "page_items cfg net q f (page + 1) = None" and page: "1 \<le> page"
    and r: "loop_body cfg net q sleep_s (ms, seen, page) w = (c, w')"
  shows "(\<exists>e. c = Raise e) \<or> c = Break (ms, seen, page + 1)"
proof -
  have u: "url_of cfg q f (page + 1) = full_url cfg q (page + 1) []"
    using page by (rule url_of_next)
  show ?thesis
  proof (cases "net (full_url cfg q (page + 1) [])")
    case (Inl name)
    with r show ?thesis by (auto simp: loop_body_def http_get_shodan_def Let_def)
  next
    case (Inr resp)
    show ?thesis
    proof (cases "status_code resp = 200")
      case False
      with Inr r show ?thesis by (auto simp: loop_body_def http_get_shodan_def Let_def)
    next
      case True
      show ?thesis
      proof (cases "resp_json resp")
        case None
        with Inr True r show ?thesis by (auto simp: loop_body_def http_get_shodan_def Let_def)
      next
        case (Some d)
        have h: "http_get_shodan cfg net q (page + 1) [] w
           = (Inr d, w\<lparr>requests := requests w @ [full_url cfg q (page + 1) []]\<rparr>)"
          using Inr True Some by (rule http_ok)
        show ?thesis
        proof (cases "py_get d ''matches'' (JList [])")
          case (Inl e)
          with h r show ?thesis by (auto simp: loop_body_def Let_def)
        next
          case b: (Inr b)
          show ?thesis
          proof (cases "py_truthy b")
            case False
            with h b r show ?thesis by (auto simp: loop_body_def Let_def)
          next
            case t: True
            have "\<exists>e. add_batch b ms seen = Inl e"
            proof (cases "py_iter (py_or b (JList []))")
              case (Inl e)
              then show ?thesis by (simp add: add_batch_def)
            next
              case it: (Inr items)
              with p u Inr True Some b have "\<not> list_all keyed items"
                by (auto simp: page_items_def split: if_splits)
              then show ?thesis using it add_items_not_keyed by (simp add: add_batch_def)
            qed
            with h b t r show ?thesis by (auto simp: loop_body_def Let_def)
          qed
        qed
      qed
    qed
  qed
qed

lemma accumulated_next:
  assumes "1 \<le> n"
  shows "accumulated cfg net q f (n + 1)
         = keep_first (accumulated cfg net q f n @ served_items cfg net q f (n + 1))"
proof -
  have "[1..n + 1] = [1..n] @ [n + 1]"
    using assms by (simp add: upto_rec2)
  then show ?thesis
    by (simp add: accumulated_def keep_first_idem_append)
qed

lemma accumulated_one: "accumulated cfg net q f 1 = keep_first (served_items cfg net q f 1)"
  by (simp add: accumulated_def)

lemma distinct_accumulated: "distinct (map key_of (accumulated cfg net q f n))"
  by (simp add: accumulated_def distinct_keep_first)

lemma accumulated_unserved:
  assumes "page_items cfg net q f (p + 1) = None" and "1 \<le> p"
  shows "accumulated cfg net q f (p + 1) = accumulated cfg net q f p"
  using assms accumulated_next [of p cfg net q f]
  by (simp add: served_items_def keep_first_distinct distinct_accumulated)

lemma accumulated_served:
  assumes "page_items cfg net q f (p + 1) = Some items" and "1 \<le> p"
  shows "accumulated cfg net q f (p + 1) = keep_first (accumulated cfg net q f p @ items)"
  using assms accumulated_next [of p cfg net q f]
  by (simp add: served_items_def)

lemma keyed_accumulated: "list_all keyed (accumulated cfg net q f n)"
proof -
  have "list_all keyed (served_items cfg net q f p)" for p
    using page_items_SomeD [of cfg net q f p]
    by (auto simp: served_items_def split: option.splits)
  then have "\<forall>m\<in>set (concat (map (served_items cfg net q f) [1..n])). keyed m"
    by (auto simp: list_all_iff)
  then show ?thesis
    using set_keep_first [of "concat (map (served_items cfg net q f) [1..n])"]
    by (auto simp: accumulated_def list_all_iff)
qed

section \<open>The loop and \<^verbatim>\<open>fetch_all\<close>\<close>

lemma url_list_step:
  "p < n \<Longrightarrow> [url_of cfg q f (p + 1)] @ map (url_of cfg q f) [p + 1 + 1..n] = map (url_of cfg q f) [p + 1..n]"
  by (simp add: upto_rec1 [of "p + 1" n])

lemma fetch_pages_accumulated:
  assumes "fetch_pages cfg net q mx tot s st w = (Inr st', w')"
    and "st = (accumulated cfg net q f p, keys (accumulated cfg net q f p), p)"
    and "1 \<le> p"
  shows "\<exists>n\<ge>p. st' = (accumulated cfg net q f n, keys (accumulated cfg net q f n), n)
           \<and> requests w' = requests w @ map (url_of cfg q f) [p + 1..n]"
  using assms
proof (induction cfg net q mx tot s st w arbitrary: p rule: fetch_pages.induct)
  case (1 cfg net q mx tot s st w)
  let ?A = "accumulated cfg net q f"
  note st = "1.prems"(2) and p = "1.prems"(3)
  show ?case
  proof (cases "loop_cond mx tot st")
    case False
    with "1.prems"(1) have "st' = st" "w' = w"
      by (simp_all add: fetch_pages.simps)
    with st show ?thesis by (intro exI [of _ p]) simp
  next
    case True
    obtain c w1 where body: "loop_body cfg net q s st w = (c, w1)"
      by (cases "loop_body cfg net q s st w")
    have req: "requests w1 = requests w @ [url_of cfg q f (p + 1)]"
      using loop_body_requests [of cfg net q s "?A p" "keys (?A p)" p w] body st p
      by (simp add: url_of_next)
    have run: "(case c of Raise e \<Rightarrow> (Inl e, w1) | Break b \<Rightarrow> (Inr b, w1)
                | Continue k \<Rightarrow> fetch_pages cfg net q mx tot s k w1) = (Inr st', w')"
      using "1.prems"(1) True body by (simp add: fetch_pages.simps)
    have one: "[p + 1..p + 1] = [p + 1]" by simp
    show ?thesis
    proof (cases "page_items cfg net q f (p + 1)")
      case None
      from loop_body_unserved [OF None p] body st
      have "(\<exists>e. c = Raise e) \<or> c = Break (?A p, keys (?A p), p + 1)" by simp
      with run have "st' = (?A p, keys (?A p), p + 1)" "w' = w1" by auto
      with accumulated_unserved [OF None p] req one show ?thesis
        by (intro exI [of _ "p + 1"]) simp
    next
      case (Some items)
      let ?ms = "keep_first (?A p @ items)"
      have next_acc: "?A (p + 1) = ?ms"
        using Some p by (rule accumulated_served)
      have lb: "(c, w1) = (let ms' = ?ms; w1 = w\<lparr>requests := requests w @ [url_of cfg q f (p + 1)]\<rparr>
            in if length ms' = length (?A p) then (Break (ms', keys ms', p + 1), w1)
               else if s < 0 then (Raise ValueError, w1)
               else (Continue (ms', keys ms', p + 1), w1\<lparr>slept := slept w1 @ [s]\<rparr>))"
        using loop_body_served [OF Some p refl distinct_accumulated, where sleep_s = s and w = w] body st by simp
      show ?thesis
      proof (cases "length ?ms = length (?A p)")
        case eq: True
        with lb have "c = Break (?ms, keys ?ms, p + 1)" by (simp add: Let_def)
        with run have "st' = (?ms, keys ?ms, p + 1)" "w' = w1" by auto
        with next_acc req one show ?thesis
          by (intro exI [of _ "p + 1"]) simp
      next
        case neq: False
        show ?thesis
        proof (cases "s < 0")
          case True
          with lb neq have "c = Raise ValueError" by (simp add: Let_def)
          with run show ?thesis by simp
        next
          case False
          with lb neq have c: "c = Continue (?ms, keys ?ms, p + 1)" by (simp add: Let_def)
          with run have r: "fetch_pages cfg net q mx tot s (?ms, keys ?ms, p + 1) w1 = (Inr st', w')"
            by simp
          have "\<exists>n\<ge>p + 1. st' = (?A n, keys (?A n), n)
                  \<and> requests w' = requests w1 @ map (url_of cfg q f) [p + 1 + 1..n]"
            using "1.IH" [OF True body [symmetric] c r _ , of "p + 1"] next_acc p by simp
          then obtain n where n: "p + 1 \<le> n" "st' = (?A n, keys (?A n), n)"
            "requests w' = requests w1 @ map (url_of cfg q f) [p + 1 + 1..n]" by blast
          from n(1) have "p < n" by simp
          from url_list_step [OF this, of cfg q f] n(3) req
          have "requests w' = requests w @ map (url_of cfg q f) [p + 1..n]" by simp
          with n show ?thesis by (intro exI [of _ n]) simp
        qed
      qed
    qed
  qed
qed

lemma fetch_all_first_page:
  assumes fp: "first_page cfg net q f = Some (tot, fo)"
    and pi: "page_items cfg net q f 1 = Some items"
  shows "fetch_all cfg net q f mx s w =
           (case fetch_pages cfg net q mx tot s
                   (accumulated cfg net q f 1, keys (accumulated cfg net q f 1), 1)
                   (w\<lparr>requests := requests w @ [url_of cfg q f 1]\<rparr>) of
              (Inl e, w2) \<Rightarrow> (Inl e, w2)
            | (Inr (ms', seen', page'), w2) \<Rightarrow> (Inr (py_slice_to ms' mx, tot, fo), w2))"
proof -
  from fp obtain resp kvs where net: "net (url_of cfg q f 1) = Inr resp"
    and st: "status_code resp = 200" and js: "resp_json resp = Some (JObj kvs)"
    and tot: "py_int (case map_of kvs ''total'' of None \<Rightarrow> JInt 0 | Some v \<Rightarrow> v) = Inr tot"
    and fo: "fo = facets_of kvs"
    by (auto simp: first_page_def split: sum.splits if_splits option.splits jval.splits)
  from page_items_SomeD [OF pi] net js obtain b where
    get: "py_get (JObj kvs) ''matches'' (JList []) = Inr b"
    and it: "py_iter (py_or b (JList [])) = Inr items" and k: "list_all keyed items"
    by auto
  have h: "http_get_shodan cfg net q 1 f w = (Inr (JObj kvs), w\<lparr>requests := requests w @ [url_of cfg q f 1]\<rparr>)"
    using http_ok [of net cfg q 1 f resp "JObj kvs" w] net st js by (simp add: url_of_one)
  have ab: "add_batch b [] {} = Inr (length (keep_first items), keep_first items, keys (keep_first items))"
    using add_batch_served [OF it k, of "{}" "[]"] by (simp add: keys_Nil)
  have acc: "accumulated cfg net q f 1 = keep_first items"
    using pi by (simp add: accumulated_one served_items_def)
  show ?thesis
    unfolding fo
    using h tot get ab acc
    by (simp add: fetch_all_def py_get_def facets_of_def dict_get_def Let_def
             split: prod.splits sum.splits)
qed

lemma fetch_all_Inr_first_page:
  assumes "fetch_all cfg net q f mx s w = (Inr r, w')"
  shows "\<exists>tot fo items. first_page cfg net q f = Some (tot, fo) \<and> page_items cfg net q f 1 = Some items"
proof -
  from assms obtain first w1 tv tot fc batch added ms1 seen1 where
    h: "http_get_shodan cfg net q 1 f w = (Inr first, w1)"
    and gt: "py_get first ''total'' (JInt 0) = Inr tv" and ti: "py_int tv = Inr tot"
    and gm: "py_get first ''matches'' (JList []) = Inr batch"
    and ab: "add_batch batch [] {} = Inr (added, ms1, seen1)"
    by (auto simp: fetch_all_def Let_def split: prod.splits sum.splits)
  from http_Inr_D [OF h] obtain resp where net: "net (full_url cfg q 1 f) = Inr resp"
    and st: "status_code resp = 200" and js: "resp_json resp = Some first" by blast
  from gt obtain kvs where first: "first = JObj kvs"
    by (cases first) (auto simp: py_get_def)
  from first_batch [OF ab] obtain items where it: "py_iter (py_or batch (JList [])) = Inr items"
    and k: "list_all keyed items" by blast
  have "first_page cfg net q f = Some (tot, facets_of kvs)"
    using net st js first gt ti by (auto simp: first_page_def url_of_one py_get_def)
  moreover have "page_items cfg net q f 1 = Some items"
    using net st js gm it k by (simp add: page_items_def url_of_one)
  ultimately show ?thesis by blast
qed

lemma slice_prefix: "prefix (py_slice_to xs n) xs"
  by (simp add: py_slice_to_def take_is_prefix)

lemma slice_all: "int (length xs) < n \<Longrightarrow> py_slice_to xs n = xs"
  by (simp add: py_slice_to_def)

lemma distinct_slice: "distinct (map key_of xs) \<Longrightarrow> distinct (map key_of (py_slice_to xs n))"
  by (simp add: py_slice_to_def take_map [symmetric])

lemma keyed_slice: "list_all keyed xs \<Longrightarrow> list_all keyed (py_slice_to xs n)"
  by (auto simp: py_slice_to_def list_all_iff dest: in_set_takeD)

lemma fetch_all_accumulated:
  assumes "fetch_all cfg net q f mx s w = (Inr (ms, tot, fo), w')"
  shows "\<exists>n\<ge>1. ms = py_slice_to (accumulated cfg net q f n) mx
           \<and> requests w' = requests w @ map (url_of cfg q f) [1..n]"
proof -
  from fetch_all_Inr_first_page [OF assms] obtain tot' fo' items where
    fp: "first_page cfg net q f = Some (tot', fo')" and pi: "page_items cfg net q f 1 = Some items"
    by blast
  let ?A = "accumulated cfg net q f"
  let ?w1 = "w\<lparr>requests := requests w @ [url_of cfg q f 1]\<rparr>"
  from assms fetch_all_first_page [OF fp pi, of mx s w]
  obtain ms' seen' page' where
    fpg: "fetch_pages cfg net q mx tot' s (?A 1, keys (?A 1), 1) ?w1 = (Inr (ms', seen', page'), w')"
    and ms: "ms = py_slice_to ms' mx"
    by (auto split: prod.splits sum.splits)
  from fetch_pages_accumulated [OF fpg refl, of ] obtain n where n: "1 \<le> n"
    "(ms', seen', page') = (?A n, keys (?A n), n)"
    "requests w' = requests ?w1 @ map (url_of cfg q f) [1 + 1..n]"
    by auto
  from n(1) have "[1..n] = 1 # [1 + 1..n]" by (simp add: upto_rec1)
  with n ms show ?thesis by (intro exI [of _ n]) simp
qed

lemma fetch_pages_step:
  assumes p: "1 \<le> p" and pi: "page_items cfg net q f (p + 1) \<noteq> None"
    and grow: "length (accumulated cfg net q f p) < length (accumulated cfg net q f (p + 1))"
    and mx: "int (length (accumulated cfg net q f p)) < mx"
    and tot: "int (length (accumulated cfg net q f p)) < tot"
    and s: "0 \<le> s"
  shows "fetch_pages cfg net q mx tot s
           (accumulated cfg net q f p, keys (accumulated cfg net q f p), p) w
         = fetch_pages cfg net q mx tot s
             (accumulated cfg net q f (p + 1), keys (accumulated cfg net q f (p + 1)), p + 1)
             (w\<lparr>requests := requests w @ [url_of cfg q f (p + 1)], slept := slept w @ [s]\<rparr>)"
proof -
  let ?A = "accumulated cfg net q f"
  from pi obtain items where items: "page_items cfg net q f (p + 1) = Some items" by auto
  have acc: "?A (p + 1) = keep_first (?A p @ items)"
    using items p by (rule accumulated_served)
  have lb: "loop_body cfg net q s (?A p, keys (?A p), p) w
        = (Continue (?A (p + 1), keys (?A (p + 1)), p + 1),
           w\<lparr>requests := requests w @ [url_of cfg q f (p + 1)], slept := slept w @ [s]\<rparr>)"
    using loop_body_served [OF items p refl distinct_accumulated, where sleep_s = s and w = w]
      grow s acc
    by (simp add: Let_def)
  have c: "loop_cond mx tot (?A p, keys (?A p), p)"
    using mx tot by (simp add: loop_cond_def)
  show ?thesis
    by (subst fetch_pages.simps) (simp add: c lb)
qed

lemma fetch_pages_stop:
  assumes "\<not> loop_cond mx tot st"
  shows "fetch_pages cfg net q mx tot s st w = (Inr st, w)"
  using assms by (simp add: fetch_pages.simps)

lemma fetch_pages_http_error:
  assumes c: "loop_cond mx tot (ms, seen, p)"
    and net: "net (full_url cfg q (p + 1) []) = Inr resp" and st: "status_code resp \<noteq> 200"
  shows "fetch_pages cfg net q mx tot s (ms, seen, p) w
         = (Inr (ms, seen, p + 1),
            print_err (page_warning (p + 1)
                         (http_error (status_code resp) (full_url cfg q (p + 1) []) (resp_text resp)))
              (w\<lparr>requests := requests w @ [full_url cfg q (p + 1) []]\<rparr>))"
proof -
  have "loop_body cfg net q s (ms, seen, p) w
        = (Break (ms, seen, p + 1),
           print_err (page_warning (p + 1)
                         (http_error (status_code resp) (full_url cfg q (p + 1) []) (resp_text resp)))
              (w\<lparr>requests := requests w @ [full_url cfg q (p + 1) []]\<rparr>))"
    using net st by (simp add: loop_body_def http_get_shodan_def Let_def)
  then show ?thesis
    by (subst fetch_pages.simps) (simp add: c)
qed

lemma fetch_pages_library_error:
  assumes c: "loop_cond mx tot (ms, seen, p)"
    and net: "net (full_url cfg q (p + 1) []) = Inl name"
  shows "fetch_pages cfg net q mx tot s (ms, seen, p) w
         = (Inl (RequestsError name), w\<lparr>requests := requests w @ [full_url cfg q (p + 1) []]\<rparr>)"
proof -
  have "loop_body cfg net q s (ms, seen, p) w
        = (Raise (RequestsError name), w\<lparr>requests := requests w @ [full_url cfg q (p + 1) []]\<rparr>)"
    using net by (simp add: loop_body_def http_get_shodan_def Let_def)
  then show ?thesis
    by (subst fetch_pages.simps) (simp add: c)
qed

lemma replicate_step: "p \<le> n \<Longrightarrow> replicate (nat (n - p)) s @ [s] = replicate (nat (n + 1 - p)) (s::real)"
proof -
  assume "p \<le> n"
  then have "nat (n + 1 - p) = Suc (nat (n - p))" by simp
  then show ?thesis by (simp add: replicate_append_same)
qed

lemma fetch_pages_run:
  assumes "p \<le> n" and "1 \<le> p"
    and "\<forall>i\<in>{p + 1..n}. page_items cfg net q f i \<noteq> None
           \<and> int (length (accumulated cfg net q f (i - 1))) < mx
           \<and> int (length (accumulated cfg net q f (i - 1))) < tot
           \<and> length (accumulated cfg net q f (i - 1)) < length (accumulated cfg net q f i)"
    and "p < n \<longrightarrow> 0 \<le> s"
  shows "fetch_pages cfg net q mx tot s
           (accumulated cfg net q f p, keys (accumulated cfg net q f p), p) w
         = fetch_pages cfg net q mx tot s
             (accumulated cfg net q f n, keys (accumulated cfg net q f n), n)
             (w\<lparr>requests := requests w @ map (url_of cfg q f) [p + 1..n],
                slept := slept w @ replicate (nat (n - p)) s\<rparr>)"
  using assms
proof (induction n rule: int_ge_induct)
  case base
  show ?case by simp
next
  case (step n)
  let ?A = "accumulated cfg net q f"
  let ?wn = "w\<lparr>requests := requests w @ map (url_of cfg q f) [p + 1..n],
                slept := slept w @ replicate (nat (n - p)) s\<rparr>"
  have s: "0 \<le> s" using step.hyps step.prems(3) by simp
  have n1: "1 \<le> n" using step.hyps step.prems(1) by simp
  have hn: "page_items cfg net q f (n + 1) \<noteq> None" "int (length (?A n)) < mx"
    "int (length (?A n)) < tot" "length (?A n) < length (?A (n + 1))"
    using step.prems(2) step.hyps by (auto dest: bspec [where x = "n + 1"])
  have "\<forall>i\<in>{p + 1..n}. page_items cfg net q f i \<noteq> None
           \<and> int (length (?A (i - 1))) < mx \<and> int (length (?A (i - 1))) < tot
           \<and> length (?A (i - 1)) < length (?A i)"
    using step.prems(2) by auto
  from step.IH [OF step.prems(1) this] s
  have "fetch_pages cfg net q mx tot s (?A p, keys (?A p), p) w
        = fetch_pages cfg net q mx tot s (?A n, keys (?A n), n) ?wn" by simp
  also have "\<dots> = fetch_pages cfg net q mx tot s (?A (n + 1), keys (?A (n + 1)), n + 1)
        (?wn\<lparr>requests := requests ?wn @ [url_of cfg q f (n + 1)], slept := slept ?wn @ [s]\<rparr>)"
    by (rule fetch_pages_step [OF n1 hn(1) hn(4) hn(2) hn(3) s])
  also have "?wn\<lparr>requests := requests ?wn @ [url_of cfg q f (n + 1)], slept := slept ?wn @ [s]\<rparr>
        = w\<lparr>requests := requests w @ map (url_of cfg q f) [p + 1..n + 1],
                slept := slept w @ replicate (nat (n + 1 - p)) s\<rparr>"
    using step.hyps replicate_step [of p n s] by (simp add: upto_rec2 [of "p + 1" "n + 1"])
  finally show ?case .
qed

lemma fetch_all_run:
  assumes fp: "first_page cfg net q f = Some (tot, fo)"
    and pf: "pages_fetched cfg net q f mx tot n"
    and s: "1 < n \<longrightarrow> 0 \<le> s"
  shows "fetch_all cfg net q f mx s w =
           (case fetch_pages cfg net q mx tot s
                   (accumulated cfg net q f n, keys (accumulated cfg net q f n), n)
                   (after_pages cfg q f s n n w) of
              (Inl e, w2) \<Rightarrow> (Inl e, w2)
            | (Inr (ms', seen', page'), w2) \<Rightarrow> (Inr (py_slice_to ms' mx, tot, fo), w2))"
proof -
  from pf have n: "1 \<le> n" and served: "\<forall>i\<in>{1..n}. page_items cfg net q f i \<noteq> None"
    and rest: "\<forall>i\<in>{1 + 1..n}. page_items cfg net q f i \<noteq> None
           \<and> int (length (accumulated cfg net q f (i - 1))) < mx
           \<and> int (length (accumulated cfg net q f (i - 1))) < tot
           \<and> length (accumulated cfg net q f (i - 1)) < length (accumulated cfg net q f i)"
    by (auto simp: pages_fetched_def)
  from n have "1 \<in> {1..n}" by simp
  with served have "page_items cfg net q f 1 \<noteq> None" by blast
  then obtain items where pi: "page_items cfg net q f 1 = Some items" by auto
  let ?w1 = "w\<lparr>requests := requests w @ [url_of cfg q f 1]\<rparr>"
  have w: "?w1\<lparr>requests := requests ?w1 @ map (url_of cfg q f) [1 + 1..n],
                slept := slept ?w1 @ replicate (nat (n - 1)) s\<rparr> = after_pages cfg q f s n n w"
    using n by (simp add: after_pages_def upto_rec1 [of 1 n])
  from fetch_pages_run [OF n _ rest, of s ?w1] s w
  have "fetch_pages cfg net q mx tot s
           (accumulated cfg net q f 1, keys (accumulated cfg net q f 1), 1) ?w1
        = fetch_pages cfg net q mx tot s
           (accumulated cfg net q f n, keys (accumulated cfg net q f n), n)
           (after_pages cfg q f s n n w)" by simp
  with fetch_all_first_page [OF fp pi, of mx s w] show ?thesis by simp
qed

lemma fetch_pages_reaches_maximum:
  assumes "1 \<le> p" and "p - 1 \<le> int (length (accumulated cfg net q f p))"
    and "mx \<le> tot" and "0 \<le> s"
    and "\<forall>i\<in>{1..mx + 1}. page_items cfg net q f i \<noteq> None"
    and "\<forall>i\<in>{2..mx + 1}. length (accumulated cfg net q f (i - 1)) < length (accumulated cfg net q f i)"
  shows "\<exists>n w'. fetch_pages cfg net q mx tot s
                  (accumulated cfg net q f p, keys (accumulated cfg net q f p), p) w
                = (Inr (accumulated cfg net q f n, keys (accumulated cfg net q f n), n), w')
              \<and> mx \<le> int (length (accumulated cfg net q f n))"
  using assms
proof (induction "nat (mx - int (length (accumulated cfg net q f p)))" arbitrary: p w rule: less_induct)
  case less
  let ?A = "accumulated cfg net q f"
  show ?case
  proof (cases "loop_cond mx tot (?A p, keys (?A p), p)")
    case False
    then have "mx \<le> int (length (?A p))"
      using less.prems(3) by (simp add: loop_cond_def)
    with fetch_pages_stop [OF False, of cfg net q s w] show ?thesis by blast
  next
    case True
    then have lt: "int (length (?A p)) < mx" "int (length (?A p)) < tot"
      by (simp_all add: loop_cond_def)
    with less.prems(1,2) have range: "p + 1 \<in> {1..mx + 1}" "p + 1 \<in> {2..mx + 1}" by simp_all
    from range(1) less.prems(5) have served: "page_items cfg net q f (p + 1) \<noteq> None" by blast
    from range(2) less.prems(6) have grow: "length (?A p) < length (?A (p + 1))" by fastforce
    have step: "fetch_pages cfg net q mx tot s (?A p, keys (?A p), p) w
         = fetch_pages cfg net q mx tot s (?A (p + 1), keys (?A (p + 1)), p + 1)
             (w\<lparr>requests := requests w @ [url_of cfg q f (p + 1)], slept := slept w @ [s]\<rparr>)"
      by (rule fetch_pages_step [OF less.prems(1) served grow lt less.prems(4)])
    have m: "nat (mx - int (length (?A (p + 1)))) < nat (mx - int (length (?A p)))"
      using grow lt by simp
    have p1: "1 \<le> p + 1" "p + 1 - 1 \<le> int (length (?A (p + 1)))"
      using less.prems(1,2) grow by simp_all
    from less.hyps [OF m p1 less.prems(3) less.prems(4) less.prems(5) less.prems(6)] step
    show ?thesis by simp
  qed
qed

lemma sublist_mid: "sublist x (a @ b @ c @ x @ d)"
  using sublist_appendI [of x "a @ b @ c" d] by simp

lemma page_warning_names_page: "py_in (str_int p) (page_warning p e)"
  unfolding py_in_def page_warning_def by (rule sublist_mid)

lemma range12: "{1..2} = {1, 2::int}" by auto

section \<open>Properties of \<^verbatim>\<open>fetch_all\<close>\<close>

text \<open>
  Claim C1. Let page 1 be served with the items \<open>items1\<close> and page 2 with the
  items \<open>items2\<close>, let every key of page 2 be a key of page 1, and let the number
  of distinct keys of page 1 be below both the maximum and the reported total, so
  that page 2 is requested. Then \<^verbatim>\<open>fetch_all\<close> returns the matches of page 1,
  each key at its first occurrence, which are exactly as many as page 1 has
  distinct keys, and the requests made are the one for page 1 and the one for
  page 2: page 3 is never requested.
\<close>

theorem repeated_second_page:
  assumes fp: "first_page cfg net q f = Some (tot, fo)"
    and p1: "page_items cfg net q f 1 = Some items1"
    and p2: "page_items cfg net q f 2 = Some items2"
    and rep: "key_of ` set items2 \<subseteq> key_of ` set items1"
    and mx: "int (length (remdups (map key_of items1))) < mx"
    and tot: "int (length (remdups (map key_of items1))) < tot"
  shows "fetch_all cfg net q f mx s w
         = (Inr (keep_first items1, tot, fo),
            w\<lparr>requests := requests w @ [url_of cfg q f 1, url_of cfg q f 2]\<rparr>)
         \<and> length (keep_first items1) = length (remdups (map key_of items1))"
proof -
  let ?A = "accumulated cfg net q f"
  let ?w1 = "w\<lparr>requests := requests w @ [url_of cfg q f 1]\<rparr>"
  have acc: "?A 1 = keep_first items1"
    using p1 by (simp add: accumulated_one served_items_def)
  have len: "length (keep_first items1) = length (remdups (map key_of items1))"
    by (rule length_keep_first)
  have c: "loop_cond mx tot (?A 1, keys (?A 1), 1)"
    using mx tot acc len by (simp add: loop_cond_def)
  have p2': "page_items cfg net q f (1 + 1) = Some items2" using p2 by simp
  have "key_of ` set items2 \<subseteq> key_of ` set (keep_first items1)"
    using rep by (simp add: key_image_keep_first)
  then have same: "keep_first (?A 1 @ items2) = ?A 1"
    using acc by (simp add: keep_first_repeated keep_first_distinct distinct_keep_first)
  have lb: "loop_body cfg net q s (?A 1, keys (?A 1), 1) ?w1
        = (Break (?A 1, keys (?A 1), 2), ?w1\<lparr>requests := requests ?w1 @ [url_of cfg q f 2]\<rparr>)"
    using loop_body_served [OF p2' _ refl distinct_accumulated, where sleep_s = s and w = ?w1] same
    by (simp add: Let_def)
  have "fetch_pages cfg net q mx tot s (?A 1, keys (?A 1), 1) ?w1
        = (Inr (?A 1, keys (?A 1), 2), ?w1\<lparr>requests := requests ?w1 @ [url_of cfg q f 2]\<rparr>)"
    by (subst fetch_pages.simps) (simp add: c lb)
  with fetch_all_first_page [OF fp p1, of mx s w] acc mx len show ?thesis
    by (simp add: slice_all)
qed

theorem repeated_second_page_witness:
  "fetch_all script_config net_repeat ''country:GT'' [] 1000 1 world0
     = (Inr ([h1, h2], 5, JNull), world0\<lparr>requests := [page_url 1, page_url 2]\<rparr>)
   \<and> length (remdups (map key_of [h1, h2, h1])) = 2"
proof -
  have a: "first_page script_config net_repeat ''country:GT'' [] = Some (5, JNull)"
    by code_simp
  have b: "page_items script_config net_repeat ''country:GT'' [] 1 = Some [h1, h2, h1]"
    by code_simp
  have c: "page_items script_config net_repeat ''country:GT'' [] 2 = Some [h2, h1]"
    by code_simp
  have d: "key_of ` set [h2, h1] \<subseteq> key_of ` set [h1, h2, h1]"
    by code_simp
  have e: "length (remdups (map key_of [h1, h2, h1])) = 2"
    by code_simp
  have k: "keep_first [h1, h2, h1] = [h1, h2]"
    by code_simp
  from repeated_second_page [OF a b c d, of 1000 1 world0] e k show ?thesis
    by (simp add: page_url_def world0_def)
qed

text \<open>
  Claim C4. Let page 1 report the total \<open>tot\<close>, let the maximum \<open>mx\<close> be
  between 0 and \<open>tot\<close> (the claim has \<open>tot = 5\<close> and \<open>mx = 3\<close>), the pause not
  negative, and let every page that can be fetched before the maximum is reached
  (pages 1 to \<open>mx + 1\<close>) be served well and add at least one match with a new
  key. Then \<^verbatim>\<open>fetch_all\<close> returns, and the list it returns is the first \<open>mx\<close>
  accumulated matches: it has exactly \<open>mx\<close> entries.
\<close>

theorem maximum_reached:
  assumes fp: "first_page cfg net q f = Some (tot, fo)"
    and mx: "0 \<le> mx" "mx \<le> tot" and s: "0 \<le> s"
    and served: "\<forall>i\<in>{1..mx + 1}. page_items cfg net q f i \<noteq> None"
    and new: "\<forall>i\<in>{2..mx + 1}. length (accumulated cfg net q f (i - 1)) < length (accumulated cfg net q f i)"
  shows "\<exists>n w'. fetch_all cfg net q f mx s w
                  = (Inr (take (nat mx) (accumulated cfg net q f n), tot, fo), w')
              \<and> length (take (nat mx) (accumulated cfg net q f n)) = nat mx"
proof -
  let ?A = "accumulated cfg net q f"
  let ?w1 = "w\<lparr>requests := requests w @ [url_of cfg q f 1]\<rparr>"
  from mx(1) have "1 \<in> {1..mx + 1}" by simp
  with served have "page_items cfg net q f 1 \<noteq> None" by blast
  then obtain items where pi: "page_items cfg net q f 1 = Some items" by auto
  have "\<exists>n w'. fetch_pages cfg net q mx tot s (?A 1, keys (?A 1), 1) ?w1
                = (Inr (?A n, keys (?A n), n), w') \<and> mx \<le> int (length (?A n))"
    by (rule fetch_pages_reaches_maximum [OF _ _ mx(2) s served new]) simp_all
  then obtain n w' where r: "fetch_pages cfg net q mx tot s (?A 1, keys (?A 1), 1) ?w1
                = (Inr (?A n, keys (?A n), n), w')" and len: "mx \<le> int (length (?A n))"
    by blast
  from fetch_all_first_page [OF fp pi, of mx s w] r mx(1)
  have "fetch_all cfg net q f mx s w = (Inr (take (nat mx) (?A n), tot, fo), w')"
    by (simp add: py_slice_to_def)
  moreover from len mx(1) have "length (take (nat mx) (?A n)) = nat mx" by simp
  ultimately show ?thesis by blast
qed

theorem maximum_reached_witness:
  "\<exists>n w'. fetch_all script_config net_growing ''country:GT'' [] 3 1 world0
            = (Inr (take (nat 3) (accumulated script_config net_growing ''country:GT'' [] n), 5, JNull), w')
        \<and> length (take (nat 3) (accumulated script_config net_growing ''country:GT'' [] n)) = nat 3"
proof -
  let ?P = "page_items script_config net_growing ''country:GT'' []"
  let ?A = "accumulated script_config net_growing ''country:GT'' []"
  have a: "first_page script_config net_growing ''country:GT'' [] = Some (5, JNull)"
    by code_simp
  have p1: "?P 1 = Some [h1, h2]" by code_simp
  have p2: "?P 2 = Some [h3, h1]" by code_simp
  have p3: "?P 3 = Some [h4]" by code_simp
  have p4: "?P 4 = Some [h5]" by code_simp
  have k1: "keep_first [h1, h2] = [h1, h2]" by code_simp
  have k2: "keep_first ([h1, h2] @ [h3, h1]) = [h1, h2, h3]" by code_simp
  have k3: "keep_first ([h1, h2, h3] @ [h4]) = [h1, h2, h3, h4]" by code_simp
  have k4: "keep_first ([h1, h2, h3, h4] @ [h5]) = [h1, h2, h3, h4, h5]" by code_simp
  have a1: "?A 1 = [h1, h2]"
    using p1 k1 by (simp add: accumulated_one served_items_def)
  have a2: "?A 2 = [h1, h2, h3]"
    using accumulated_served [of script_config net_growing "''country:GT''" "[]" 1, OF _ order_refl] p2 a1 k2
    by simp
  have a3: "?A 3 = [h1, h2, h3, h4]"
    using accumulated_served [of script_config net_growing "''country:GT''" "[]" 2] p3 a2 k3
    by simp
  have a4: "?A 4 = [h1, h2, h3, h4, h5]"
    using accumulated_served [of script_config net_growing "''country:GT''" "[]" 3] p4 a3 k4
    by simp
  have r1: "{1..3 + 1} = {1, 2, 3, 4::int}" by auto
  have r2: "{2..3 + 1} = {2, 3, 4::int}" by auto
  have b: "\<forall>i\<in>{1..3 + 1}. ?P i \<noteq> None"
    unfolding r1 using p1 p2 p3 p4 by simp
  have c: "\<forall>i\<in>{2..3 + 1}. length (?A (i - 1)) < length (?A i)"
    unfolding r2 using a1 a2 a3 a4 by simp
  show ?thesis
    by (rule maximum_reached [OF a _ _ _ b c]) simp_all
qed

text \<open>
  Claim C5. When page 1 reports the total 0 and carries an empty match list,
  \<^verbatim>\<open>fetch_all\<close> returns the empty list (with the total 0 and the facets of page
  1), and the only request made is the one for page 1: the loop body never runs.
\<close>

theorem empty_first_page:
  assumes "first_page cfg net q f = Some (0, fo)"
    and "page_items cfg net q f 1 = Some []"
  shows "fetch_all cfg net q f mx s w
         = (Inr ([], 0, fo), w\<lparr>requests := requests w @ [url_of cfg q f 1]\<rparr>)"
proof -
  have acc: "accumulated cfg net q f 1 = []"
    using assms(2) by (simp add: accumulated_one served_items_def)
  have "\<not> loop_cond mx 0 ([], keys [], 1)"
    by (simp add: loop_cond_def)
  then have "fetch_pages cfg net q mx 0 s ([], keys [], 1) (w\<lparr>requests := requests w @ [url_of cfg q f 1]\<rparr>)
             = (Inr ([], keys [], 1), w\<lparr>requests := requests w @ [url_of cfg q f 1]\<rparr>)"
    by (rule fetch_pages_stop)
  with fetch_all_first_page [OF assms, of mx s w] acc show ?thesis
    by (simp add: py_slice_to_def)
qed

theorem empty_first_page_witness:
  "first_page script_config net_empty ''country:GT'' [] = Some (0, JNull)
   \<and> page_items script_config net_empty ''country:GT'' [] 1 = Some []
   \<and> fetch_all script_config net_empty ''country:GT'' [] 1000 1 world0
       = (Inr ([], 0, JNull), world0\<lparr>requests := [page_url 1]\<rparr>)"
proof -
  have a: "first_page script_config net_empty ''country:GT'' [] = Some (0, JNull)"
    by code_simp
  have b: "page_items script_config net_empty ''country:GT'' [] 1 = Some []"
    by code_simp
  from empty_first_page [OF a b, of 1000 1 world0] a b show ?thesis
    by (simp add: page_url_def world0_def)
qed

lemma result_rows_ok:
  "list_all (\<lambda>m. row_lookups m = Inr ()) ms \<Longrightarrow> fst (result_rows ms w) = Inr ()"
  by (induction ms arbitrary: w) auto

lemma row_lookups_dict: "row_lookups m = Inr () \<Longrightarrow> is_dict m"
  by (cases m) (simp_all add: row_lookups_def is_dict_def)

lemma main_report_ok:
  assumes facets: "\<forall>v. fst (print_facets fo v) = Inr ()"
    and rows: "list_all (\<lambda>m. row_lookups m = Inr ()) ms"
  shows "fst (main_report cfg ms tot fo w) = Inr ()"
proof -
  let ?w1 = "print_out (Totals tot (length ms)) w"
  obtain r2 w2 where pf: "print_facets fo ?w1 = (r2, w2)"
    by (cases "print_facets fo ?w1")
  from facets have "fst (print_facets fo ?w1) = Inr ()" by blast
  with pf have r2: "r2 = Inr ()" by simp
  obtain r3 w3 where pr: "print_results ms w2 = (r3, w3)"
    by (cases "print_results ms w2")
  have "fst (print_results ms w2) = Inr ()"
    using result_rows_ok [OF rows] by (simp add: print_results_def)
  with pr have r3: "r3 = Inr ()" by simp
  have d: "list_all is_dict ms"
    using rows row_lookups_dict by (auto simp: list_all_iff)
  show ?thesis
    using pf r2 pr r3 d by (simp add: main_report_def Let_def print_summary_def)
qed

text \<open>
  Claim C6, amended. Let the loop fetch and process pages 1 to \<open>n\<close>, let the
  matches accumulated from them be fewer than both limits, so that page \<open>n + 1\<close>
  is requested, and let that request be answered with a status other than 200.
  Then \<^verbatim>\<open>fetch_all\<close> returns normally with the matches accumulated from pages
  1 to \<open>n\<close>; the world shows the requests for pages 1 to \<open>n + 1\<close> and one line on
  the error stream, the warning, which contains the number \<open>n + 1\<close> of the failed
  page. Called from \<^verbatim>\<open>main\<close>, the run goes on into the report with exactly
  these matches, and it completes without an exception whenever the captured
  facets and the rows of these matches can be printed.
\<close>

theorem later_page_http_error:
  assumes fp: "first_page cfg net q f = Some (tot, fo)"
    and pf: "pages_fetched cfg net q f mx tot n"
    and mx: "int (length (accumulated cfg net q f n)) < mx"
    and tot: "int (length (accumulated cfg net q f n)) < tot"
    and s: "1 < n \<longrightarrow> 0 \<le> s"
    and net: "net (url_of cfg q f (n + 1)) = Inr resp"
    and st: "status_code resp \<noteq> 200"
  shows "fetch_all cfg net q f mx s w
         = (Inr (accumulated cfg net q f n, tot, fo),
            print_err (page_warning (n + 1)
                         (http_error (status_code resp) (url_of cfg q f (n + 1)) (resp_text resp)))
              (after_pages cfg q f s (n + 1) n w))
         \<and> py_in (str_int (n + 1))
              (page_warning (n + 1)
                 (http_error (status_code resp) (url_of cfg q f (n + 1)) (resp_text resp)))
         \<and> (build_query cfg = Inr q \<and> f = FACETS cfg \<and> mx = MAX_RESULTS cfg \<and> s = SLEEP_SECONDS cfg
              \<longrightarrow> main cfg net w
                  = main_report cfg (accumulated cfg net q f n) tot fo
                      (print_err (page_warning (n + 1)
                         (http_error (status_code resp) (url_of cfg q f (n + 1)) (resp_text resp)))
                        (after_pages cfg q f s (n + 1) n (print_banner (STUDENT cfg) q w)))
                \<and> ((\<forall>v. fst (print_facets fo v) = Inr ())
                      \<and> list_all (\<lambda>m. row_lookups m = Inr ()) (accumulated cfg net q f n)
                    \<longrightarrow> fst (main cfg net w) = Inr ()))"
proof -
  let ?A = "accumulated cfg net q f"
  let ?msg = "page_warning (n + 1)
                (http_error (status_code resp) (url_of cfg q f (n + 1)) (resp_text resp))"
  from pf have n: "1 \<le> n" by (simp add: pages_fetched_def)
  have u: "url_of cfg q f (n + 1) = full_url cfg q (n + 1) []"
    using n by (rule url_of_next)
  have c: "loop_cond mx tot (?A n, keys (?A n), n)"
    using mx tot by (simp add: loop_cond_def)
  have w: "print_err m ((after_pages cfg q f s n n v)\<lparr>requests := requests (after_pages cfg q f s n n v) @ [url_of cfg q f (n + 1)]\<rparr>)
           = print_err m (after_pages cfg q f s (n + 1) n v)" for m v
    using n by (simp add: after_pages_def print_err_def upto_rec2 [of 1 "n + 1"])
  have fa: "fetch_all cfg net q f mx s v
            = (Inr (?A n, tot, fo), print_err ?msg (after_pages cfg q f s (n + 1) n v))" for v
    using fetch_all_run [OF fp pf s, of v]
      fetch_pages_http_error [OF c, where cfg = cfg and net = net and q = q and resp = resp
        and s = s and w = "after_pages cfg q f s n n v"] net st u w mx
    by (simp add: slice_all)
  have pin: "py_in (str_int (n + 1)) ?msg"
    by (rule page_warning_names_page)
  have m: "main cfg net w = main_report cfg (?A n) tot fo
          (print_err ?msg (after_pages cfg q f s (n + 1) n (print_banner (STUDENT cfg) q w)))"
    if "build_query cfg = Inr q" "f = FACETS cfg" "mx = MAX_RESULTS cfg" "s = SLEEP_SECONDS cfg"
    using that fa [of "print_banner (STUDENT cfg) q w"] by (simp add: main_def Let_def)
  have ok: "fst (main cfg net w) = Inr ()"
    if "build_query cfg = Inr q" "f = FACETS cfg" "mx = MAX_RESULTS cfg" "s = SLEEP_SECONDS cfg"
      and "\<forall>v. fst (print_facets fo v) = Inr ()"
      and "list_all (\<lambda>m. row_lookups m = Inr ()) (?A n)"
    using m [OF that(1-4)] main_report_ok [OF that(5,6)] by simp
  from fa [of w] pin m ok show ?thesis by blast
qed

theorem later_page_http_error_witness:
  "fetch_all script_config net_then_500 ''country:GT'' [] 1000 1 world0
     = (Inr ([h1, h2, h3], 5, JNull),
        world0\<lparr>requests := [page_url 1, page_url 2, page_url 3],
               stderr := [page_warning 3 (http_error 500 (page_url 3) ''Internal Server Error'')],
               slept := [1]\<rparr>)
   \<and> py_in ''3'' (page_warning 3 (http_error 500 (page_url 3) ''Internal Server Error''))
   \<and> fst (main script_config net_then_500 world0) = Inr ()"
proof -
  let ?P = "page_items script_config net_then_500 ''country:GT'' []"
  let ?A = "accumulated script_config net_then_500 ''country:GT'' []"
  have a: "first_page script_config net_then_500 ''country:GT'' [] = Some (5, JNull)"
    by code_simp
  have p1: "?P 1 = Some [h1, h2]" by code_simp
  have p2: "?P 2 = Some [h3]" by code_simp
  have k1: "keep_first [h1, h2] = [h1, h2]" by code_simp
  have k2: "keep_first ([h1, h2] @ [h3]) = [h1, h2, h3]" by code_simp
  have a1: "?A 1 = [h1, h2]"
    using p1 k1 by (simp add: accumulated_one served_items_def)
  have a2: "?A 2 = [h1, h2, h3]"
    using accumulated_served [of script_config net_then_500 "''country:GT''" "[]" 1] p2 a1 k2
    by simp
  have pf: "pages_fetched script_config net_then_500 ''country:GT'' [] 1000 5 2"
    unfolding pages_fetched_def range12 using p1 p2 a1 a2 by simp
  have net: "net_then_500 (url_of script_config ''country:GT'' [] (2 + 1)) = Inr error_response"
    by code_simp
  have st: "status_code error_response \<noteq> 200"
    by (simp add: error_response_def)
  have bq: "build_query script_config = Inr ''country:GT''" by code_simp
  have three: "str_int 3 = ''3''" by code_simp
  have upto3: "[1..3] = [1, 2, 3::int]" by (simp add: upto_rec1)
  have cfg: "[] = FACETS script_config" "1000 = MAX_RESULTS script_config" "1 = SLEEP_SECONDS script_config"
    by (simp_all add: script_config_def)
  have facets: "\<forall>v. fst (print_facets JNull v) = Inr ()"
    by (simp add: print_facets_def)
  have rows: "list_all (\<lambda>m. row_lookups m = Inr ()) [h1, h2, h3]"
    by code_simp
  have rows': "list_all (\<lambda>m. row_lookups m = Inr ()) (?A 2)"
    unfolding a2 by (rule rows)
  have lim: "int (length (?A 2)) < 1000" "int (length (?A 2)) < 5" "1 < (2::int) \<longrightarrow> 0 \<le> (1::real)"
    unfolding a2 by simp_all
  note t = later_page_http_error [OF a pf lim net st, of world0]
  from t have ret: "fetch_all script_config net_then_500 ''country:GT'' [] 1000 1 world0
         = (Inr (?A 2, 5, JNull),
            print_err (page_warning (2 + 1)
                         (http_error (status_code error_response)
                            (url_of script_config ''country:GT'' [] (2 + 1)) (resp_text error_response)))
              (after_pages script_config ''country:GT'' [] 1 (2 + 1) 2 world0))"
    by (rule conjunct1)
  from t have names: "py_in (str_int (2 + 1))
              (page_warning (2 + 1)
                 (http_error (status_code error_response)
                    (url_of script_config ''country:GT'' [] (2 + 1)) (resp_text error_response)))"
    by blast
  from t bq cfg facets rows' have ok: "fst (main script_config net_then_500 world0) = Inr ()"
    by blast
  from ret names a2 three upto3
  have "fetch_all script_config net_then_500 ''country:GT'' [] 1000 1 world0
     = (Inr ([h1, h2, h3], 5, JNull),
        world0\<lparr>requests := [page_url 1, page_url 2, page_url 3],
               stderr := [page_warning 3 (http_error 500 (page_url 3) ''Internal Server Error'')],
               slept := [1]\<rparr>)
   \<and> py_in ''3'' (page_warning 3 (http_error 500 (page_url 3) ''Internal Server Error''))"
    by (simp add: after_pages_def print_err_def world0_def error_response_def page_url_def)
  with ok show ?thesis by simp
qed

text \<open>
  The claim as first stated, for every failed fetch of a later page, fails when
  the fetch fails inside the HTTP library. With pages 1 and 2 served and a
  connection error on page 3, \<^verbatim>\<open>except SystemExit\<close> does not apply: the run
  ends with the exception, the error stream stays empty and nothing but the
  banner has been printed.
\<close>

theorem later_page_failure_counterexample:
  "main script_config net_then_drop world0
     = (Inl (RequestsError ''ConnectionError''),
        \<lparr>requests = [page_url 1, page_url 2, page_url 3],
         stdout = [Banner (STUDENT script_config) ''country:GT''],
         stderr = [],
         slept = [1]\<rparr>)"
  by code_simp

text \<open>
  Claim C10. Let the loop fetch and process pages 1 to \<open>n\<close> and request page
  \<open>n + 1\<close> as in claim C6, but let the HTTP library raise on that request (a
  connection error, a timeout). Then the exception is not caught:
  \<^verbatim>\<open>fetch_all\<close> ends with it, nothing is written to the error stream, and
  \<^verbatim>\<open>main\<close> ends with it too, with only the banner printed.
\<close>

theorem later_page_library_error:
  assumes fp: "first_page cfg net q f = Some (tot, fo)"
    and pf: "pages_fetched cfg net q f mx tot n"
    and mx: "int (length (accumulated cfg net q f n)) < mx"
    and tot: "int (length (accumulated cfg net q f n)) < tot"
    and s: "1 < n \<longrightarrow> 0 \<le> s"
    and net: "net (url_of cfg q f (n + 1)) = Inl name"
  shows "fetch_all cfg net q f mx s w
         = (Inl (RequestsError name), after_pages cfg q f s (n + 1) n w)
         \<and> stderr (after_pages cfg q f s (n + 1) n w) = stderr w
         \<and> (build_query cfg = Inr q \<and> f = FACETS cfg \<and> mx = MAX_RESULTS cfg \<and> s = SLEEP_SECONDS cfg
              \<longrightarrow> main cfg net w
                  = (Inl (RequestsError name),
                     after_pages cfg q f s (n + 1) n (print_banner (STUDENT cfg) q w)))"
proof -
  let ?A = "accumulated cfg net q f"
  from pf have n: "1 \<le> n" by (simp add: pages_fetched_def)
  have u: "url_of cfg q f (n + 1) = full_url cfg q (n + 1) []"
    using n by (rule url_of_next)
  have c: "loop_cond mx tot (?A n, keys (?A n), n)"
    using mx tot by (simp add: loop_cond_def)
  have w: "(after_pages cfg q f s n n v)\<lparr>requests := requests (after_pages cfg q f s n n v) @ [url_of cfg q f (n + 1)]\<rparr>
           = after_pages cfg q f s (n + 1) n v" for v
    using n by (simp add: after_pages_def upto_rec2 [of 1 "n + 1"])
  have fa: "fetch_all cfg net q f mx s v
            = (Inl (RequestsError name), after_pages cfg q f s (n + 1) n v)" for v
    using fetch_all_run [OF fp pf s, of v]
      fetch_pages_library_error [OF c, where cfg = cfg and net = net and q = q and name = name
        and s = s and w = "after_pages cfg q f s n n v"] net u w
    by simp
  have "main cfg net w = (Inl (RequestsError name),
          after_pages cfg q f s (n + 1) n (print_banner (STUDENT cfg) q w))"
    if "build_query cfg = Inr q" "f = FACETS cfg" "mx = MAX_RESULTS cfg" "s = SLEEP_SECONDS cfg"
    using that fa [of "print_banner (STUDENT cfg) q w"] by (simp add: main_def Let_def)
  with fa [of w] show ?thesis by (simp add: after_pages_def)
qed

theorem later_page_library_error_witness:
  "fetch_all script_config net_then_drop ''country:GT'' [] 1000 1 world0
     = (Inl (RequestsError ''ConnectionError''),
        world0\<lparr>requests := [page_url 1, page_url 2, page_url 3], slept := [1]\<rparr>)
   \<and> main script_config net_then_drop world0
     = (Inl (RequestsError ''ConnectionError''),
        world0\<lparr>requests := [page_url 1, page_url 2, page_url 3], slept := [1],
               stdout := [Banner (STUDENT script_config) ''country:GT'']\<rparr>)"
proof -
  let ?P = "page_items script_config net_then_drop ''country:GT'' []"
  let ?A = "accumulated script_config net_then_drop ''country:GT'' []"
  have a: "first_page script_config net_then_drop ''country:GT'' [] = Some (5, JNull)"
    by code_simp
  have p1: "?P 1 = Some [h1, h2]" by code_simp
  have p2: "?P 2 = Some [h3]" by code_simp
  have k1: "keep_first [h1, h2] = [h1, h2]" by code_simp
  have k2: "keep_first ([h1, h2] @ [h3]) = [h1, h2, h3]" by code_simp
  have a1: "?A 1 = [h1, h2]"
    using p1 k1 by (simp add: accumulated_one served_items_def)
  have a2: "?A 2 = [h1, h2, h3]"
    using accumulated_served [of script_config net_then_drop "''country:GT''" "[]" 1] p2 a1 k2
    by simp
  have pf: "pages_fetched script_config net_then_drop ''country:GT'' [] 1000 5 2"
    unfolding pages_fetched_def range12 using p1 p2 a1 a2 by simp
  have net: "net_then_drop (url_of script_config ''country:GT'' [] (2 + 1)) = Inl ''ConnectionError''"
    by code_simp
  have bq: "build_query script_config = Inr ''country:GT''" by code_simp
  have upto3: "[1..3] = [1, 2, 3::int]" by (simp add: upto_rec1)
  have cfg: "[] = FACETS script_config" "1000 = MAX_RESULTS script_config" "1 = SLEEP_SECONDS script_config"
    by (simp_all add: script_config_def)
  from later_page_library_error [OF a pf _ _ _ net, of 1 world0] a2 bq cfg upto3
  show ?thesis
    by (simp add: after_pages_def print_banner_def print_out_def world0_def page_url_def)
qed

text \<open>
  Claim C9. First, \<^verbatim>\<open>add_batch\<close>, the only code that changes the
  accumulated list, keeps the invariant: from a list of keyed matches with
  pairwise distinct keys and \<^verbatim>\<open>seen\<close> equal to the set of their keys it leads to
  such a list again, it only appends at the end, and it returns the number of
  matches appended. Second, whenever \<^verbatim>\<open>fetch_all\<close> returns a list, its matches
  are keyed with pairwise distinct keys, and the list is, cut to the maximum, the
  matches of the pages requested, in page order, each key at its first
  occurrence.
\<close>

theorem unique_keys_in_first_seen_order:
  "(distinct (map key_of ms0) \<and> list_all keyed ms0 \<and> seen0 = keys ms0
      \<and> add_batch b ms0 seen0 = Inr (added, ms1, seen1)
    \<longrightarrow> distinct (map key_of ms1) \<and> list_all keyed ms1 \<and> seen1 = keys ms1
        \<and> prefix ms0 ms1 \<and> added = length ms1 - length ms0)
   \<and> (fetch_all cfg net q f mx s w = (Inr (ms, tot, fo), w')
    \<longrightarrow> distinct (map key_of ms) \<and> list_all keyed ms
        \<and> (\<exists>n\<ge>1. ms = py_slice_to (accumulated cfg net q f n) mx
                  \<and> requests w' = requests w @ map (url_of cfg q f) [1..n]))"
proof (intro conjI impI)
  assume a: "distinct (map key_of ms0) \<and> list_all keyed ms0 \<and> seen0 = keys ms0
      \<and> add_batch b ms0 seen0 = Inr (added, ms1, seen1)"
  then obtain items where it: "py_iter (py_or b (JList [])) = Inr items"
    and ai: "add_items items ms0 seen0 0 = Inr (added, ms1, seen1)"
    by (auto simp: add_batch_def split: sum.splits)
  from ai have k: "list_all keyed items" by (rule add_items_Inr_keyed)
  from a have d: "distinct (map key_of ms0)" and s0: "seen0 = keys ms0"
    and k0: "list_all keyed ms0" by simp_all
  from add_items_keyed [OF k s0 d, of 0] ai
  have r: "ms1 = keep_first (ms0 @ items)" "seen1 = keys (ms0 @ items)"
    "added = length (keep_first (ms0 @ items)) - length ms0" by simp_all
  have "keep_first (ms0 @ items)
        = ms0 @ keep_first (filter (\<lambda>y. key_of y \<notin> key_of ` set ms0) items)"
    using d by (simp add: keep_first_append [of ms0] keep_first_distinct)
  then have pre: "prefix ms0 ms1" using r(1) by simp
  have "set ms1 \<subseteq> set ms0 \<union> set items"
    using set_keep_first [of "ms0 @ items"] r(1) by simp
  with k k0 have k1: "list_all keyed ms1" by (auto simp: list_all_iff)
  show "distinct (map key_of ms1)" using r(1) by (simp add: distinct_keep_first)
  show "list_all keyed ms1" by (rule k1)
  show "seen1 = keys ms1" using r by (simp add: keys_keep_first)
  show "prefix ms0 ms1" by (rule pre)
  show "added = length ms1 - length ms0" using r by simp
next
  assume a: "fetch_all cfg net q f mx s w = (Inr (ms, tot, fo), w')"
  from fetch_all_accumulated [OF a] obtain n where n: "1 \<le> n"
    "ms = py_slice_to (accumulated cfg net q f n) mx"
    "requests w' = requests w @ map (url_of cfg q f) [1..n]" by blast
  show "distinct (map key_of ms)"
    using n(2) by (simp add: distinct_slice distinct_accumulated)
  show "list_all keyed ms"
    using n(2) by (simp add: keyed_slice keyed_accumulated)
  show "\<exists>n\<ge>1. ms = py_slice_to (accumulated cfg net q f n) mx
                  \<and> requests w' = requests w @ map (url_of cfg q f) [1..n]"
    using n by blast
qed

theorem unique_keys_in_first_seen_order_witness:
  "add_batch (JList [h2, h3, h2]) [h1, h2] (keys [h1, h2])
     = Inr (1, [h1, h2, h3], insert (''190.0.0.3'', 22) (keys [h1, h2]))
   \<and> distinct (map key_of [h1, h2, h3]) \<and> prefix [h1, h2] [h1, h2, h3]
   \<and> fetch_all script_config net_repeat ''country:GT'' [] 1000 1 world0
       = (Inr ([h1, h2], 5, JNull), world0\<lparr>requests := [page_url 1, page_url 2]\<rparr>)
   \<and> distinct (map key_of [h1, h2])
   \<and> (\<exists>n\<ge>1. [h1, h2] = py_slice_to (accumulated script_config net_repeat ''country:GT'' [] n) 1000)"
proof -
  have d: "distinct (map key_of [h1, h2])" by code_simp
  have k: "list_all keyed [h1, h2]" by code_simp
  have ab: "add_batch (JList [h2, h3, h2]) [h1, h2] (keys [h1, h2])
            = Inr (1, [h1, h2, h3], insert (''190.0.0.3'', 22) (keys [h1, h2]))"
    by code_simp
  have fa: "fetch_all script_config net_repeat ''country:GT'' [] 1000 1 world0
       = (Inr ([h1, h2], 5, JNull), world0\<lparr>requests := [page_url 1, page_url 2]\<rparr>)"
    by code_simp
  from unique_keys_in_first_seen_order [of "[h1, h2]" "keys [h1, h2]" "JList [h2, h3, h2]" 1
      "[h1, h2, h3]" "insert (''190.0.0.3'', 22) (keys [h1, h2])"
      script_config net_repeat "''country:GT''" "[]" 1000 1 world0 "[h1, h2]" 5 JNull
      "world0\<lparr>requests := [page_url 1, page_url 2]\<rparr>"] d k ab fa
  show ?thesis by auto
qed

section \<open>Properties of \<^verbatim>\<open>main\<close>\<close>

text \<open>
  Claim C7 does not hold of the script. \<^verbatim>\<open>main\<close> prints the banner before it
  calls \<^verbatim>\<open>fetch_all\<close>, so when the request for page 1 is answered with status
  500, or when the HTTP library raises on it, the run ends with the exception and
  the banner is already on the standard output. Nothing else of the report is
  printed.
\<close>

theorem banner_precedes_first_fetch:
  "main script_config net_down world0
     = (Inl (SystemExit (http_error 500 (page_url 1) ''Internal Server Error'')),
        world0\<lparr>requests := [page_url 1], stdout := [Banner (STUDENT script_config) ''country:GT'']\<rparr>)
   \<and> main script_config no_network world0
     = (Inl (RequestsError ''ConnectionError''),
        world0\<lparr>requests := [page_url 1], stdout := [Banner (STUDENT script_config) ''country:GT'']\<rparr>)"
  by code_simp

end
